theory Spec2Isabelle
  imports Main "HOL-Library.Word"
begin

unbundle bit_operations_syntax

section \<open>Data model of coco\_tape.c\<close>

text \<open>
  The decoder of \<^verbatim>\<open>src/cassette/coco_tape.c\<close> reads signed 16-bit samples, measures the
  distance between falling zero crossings, shifts one bit per cycle into the byte under
  assembly of the current block and drives \<^verbatim>\<open>process_bit\<close> once per falling crossing.
  Bytes are \<open>uint8_t\<close>, samples are \<open>int16_t\<close>; the sample counter and the four thresholds
  are C \<open>int\<close>s that stay far below their range (a WAV file has fewer than \<open>2^30\<close>
  samples), so they are mathematical integers here.
\<close>

type_synonym u8 = "8 word"
type_synonym s16 = "16 word"

datatype blocktype = BT_NAME | BT_DATA | BT_EOF

datatype block_state =
    BS_NEED_LEADBYTE
  | BS_NEED_SYNCBYTE
  | BS_NEED_BLOCKTYPE
  | BS_NEED_LENGTH
  | BS_NEED_DATA
  | BS_NEED_NAME
  | BS_NEED_FILETYPE
  | BS_NEED_ASCIIFLAG
  | BS_NEED_GAPFLAG
  | BS_NEED_STARTADDR
  | BS_NEED_LOADADDR
  | BS_NEED_CKSUM
  | BS_DONE

text \<open>
  \<open>struct block\<close>. The link \<open>b_next\<close> is the order of the blocks in a list (the chain).
  \<open>b_data\<close> is \<open>None\<close> for the NULL pointer and \<open>Some buf\<close> for an allocated buffer,
  \<open>buf\<close> holding every allocated byte. The enum fields that are assigned from an
  arbitrary byte stay bytes; \<open>b_type\<close> is only ever assigned one of its three
  enumerators (and is \<open>BT_NAME = 0\<close> after the \<open>memset\<close>).
\<close>

record block =
  b_state :: block_state
  b_type :: blocktype
  b_length :: u8
  b_cksum :: u8
  b_data :: "u8 list option"
  b_progname :: "u8 list"
  b_filetype :: u8
  b_asciiflag :: u8
  b_gapflag :: u8
  b_mlstart :: "u8 list"
  b_mlload :: "u8 list"
  b_byte :: u8
  b_nbit :: u8
  b_data_i :: u8
  b_progname_i :: u8
  b_mlstart_i :: u8
  b_mlload_i :: u8

definition SYNCBYTE :: u8 where "SYNCBYTE = 0x3C"
definition LEADERBYTE :: u8 where "LEADERBYTE = 0x55"
definition PROGNAMELEN :: nat where "PROGNAMELEN = 8"
definition MLSTARTLEN :: nat where "MLSTARTLEN = 2"
definition MLLOADLEN :: nat where "MLLOADLEN = 2"
definition NAMEBLOCKLEN :: u8 where "NAMEBLOCKLEN = 15"

text \<open>
  Every way the program stops other than by its normal exit: the two \<open>return(1)\<close> of
  \<open>process_bit\<close> that make \<open>main\<close> call \<open>exit(1)\<close> (\<open>Err_Malloc\<close>, \<open>Err_Cksum\<close>), its
  \<open>default\<close> case (\<open>Err_BadState\<close>), the two \<open>exit(1)\<close> of \<open>print_prog\<close>
  (\<open>Err_BadLine\<close>, \<open>Err_LineTooBig\<close>), and an access through a NULL pointer or outside
  an array, which C leaves undefined (\<open>Err_Fault\<close>).
\<close>

datatype error =
    Err_Malloc
  | Err_Cksum
  | Err_BadState
  | Err_BadLine
  | Err_LineTooBig
  | Err_Fault

text \<open>\<open>blocktype_of\<close> is the cast of a validated block-type byte to \<open>enum blocktype\<close>.\<close>

definition blocktype_of :: "u8 \<Rightarrow> blocktype" where
  "blocktype_of v = (if v = 0x00 then BT_NAME else if v = 0x01 then BT_DATA else BT_EOF)"

text \<open>\<open>arr[i] = v\<close> on an array of known size; outside it the store is undefined.\<close>

definition store :: "u8 list \<Rightarrow> u8 \<Rightarrow> u8 \<Rightarrow> error + u8 list" where
  "store arr i v = (if unat i < length arr then Inr (arr[unat i := v]) else Inl Err_Fault)"

text \<open>\<open>cb->b_nbit++\<close>, the last statement of every byte-collecting case.\<close>

definition nbit_incr :: "block \<Rightarrow> block" where
  "nbit_incr cb = cb\<lparr>b_nbit := b_nbit cb + 1\<rparr>"

section \<open>The block state machine: process\_bit\<close>

text \<open>
  \<open>process_bit malloc_ok cb\<close> is one call of \<open>process_bit(cb)\<close>; \<open>malloc_ok\<close> says
  whether the payload allocation \<open>malloc(cb->b_length+1)\<close> succeeds, should this call
  reach it. \<open>Inl e\<close> is the \<open>return(1)\<close> (or undefined behaviour), \<open>Inr cb'\<close> the block
  after \<open>return(0)\<close>. Debug output and the two diagnostic \<open>printf\<close>s of the length case
  are not modelled.
\<close>

definition process_bit :: "bool \<Rightarrow> block \<Rightarrow> error + block" where
  "process_bit malloc_ok cb = (case b_state cb of
     BS_NEED_SYNCBYTE \<Rightarrow>
       (if b_byte cb = SYNCBYTE
        then Inr (cb\<lparr>b_byte := 0, b_nbit := 1, b_state := BS_NEED_BLOCKTYPE\<rparr>)
        else Inr cb)
   | BS_NEED_BLOCKTYPE \<Rightarrow>
       (if b_nbit cb = 8
        then (if b_byte cb = 0x00 \<or> b_byte cb = 0x01 \<or> b_byte cb = 0xFF
              then Inr (nbit_incr (cb\<lparr>b_type := blocktype_of (b_byte cb),
                          b_cksum := b_byte cb, b_byte := 0, b_nbit := 0,
                          b_state := BS_NEED_LENGTH\<rparr>))
              else Inr (nbit_incr (cb\<lparr>b_byte := 0, b_nbit := 0,
                          b_state := BS_NEED_SYNCBYTE\<rparr>)))
        else Inr (nbit_incr cb))
   | BS_NEED_LENGTH \<Rightarrow>
       (if b_nbit cb = 8
        then (let cb1 = cb\<lparr>b_length := b_byte cb, b_cksum := b_cksum cb + b_byte cb,
                            b_byte := 0, b_nbit := 0\<rparr>
              in if b_type cb1 = BT_NAME
                 then (if b_length cb1 \<noteq> NAMEBLOCKLEN
                       then Inr (nbit_incr (cb1\<lparr>b_byte := 0, b_nbit := 0,
                                   b_state := BS_NEED_SYNCBYTE\<rparr>))
                       else Inr (nbit_incr (cb1\<lparr>b_state := BS_NEED_NAME\<rparr>)))
                 else if b_type cb1 = BT_EOF
                 then (if b_length cb1 \<noteq> 0
                       then Inr (nbit_incr (cb1\<lparr>b_byte := 0, b_nbit := 0,
                                   b_state := BS_NEED_SYNCBYTE\<rparr>))
                       else Inr (nbit_incr (cb1\<lparr>b_state := BS_NEED_CKSUM\<rparr>)))
                 else (if \<not> malloc_ok then Inl Err_Malloc
                       else Inr (nbit_incr (cb1\<lparr>b_state := BS_NEED_DATA,
                                   b_data := Some (replicate (unat (b_length cb1) + 1) 0)\<rparr>))))
        else Inr (nbit_incr cb))
   | BS_NEED_NAME \<Rightarrow>
       (if b_nbit cb = 8
        then (case store (b_progname cb) (b_progname_i cb) (b_byte cb) of
                Inl e \<Rightarrow> Inl e
              | Inr arr \<Rightarrow>
                 (let cb1 = cb\<lparr>b_progname := arr, b_progname_i := b_progname_i cb + 1,
                               b_cksum := b_cksum cb + b_byte cb\<rparr>;
                      cb2 = (if unat (b_progname_i cb1) = PROGNAMELEN
                             then cb1\<lparr>b_state := BS_NEED_FILETYPE\<rparr> else cb1)
                  in Inr (nbit_incr (cb2\<lparr>b_byte := 0, b_nbit := 0\<rparr>))))
        else Inr (nbit_incr cb))
   | BS_NEED_FILETYPE \<Rightarrow>
       (if b_nbit cb = 8
        then Inr (nbit_incr (cb\<lparr>b_filetype := b_byte cb, b_cksum := b_cksum cb + b_byte cb,
                    b_state := BS_NEED_ASCIIFLAG, b_byte := 0, b_nbit := 0\<rparr>))
        else Inr (nbit_incr cb))
   | BS_NEED_ASCIIFLAG \<Rightarrow>
       (if b_nbit cb = 8
        then Inr (nbit_incr (cb\<lparr>b_asciiflag := b_byte cb, b_cksum := b_cksum cb + b_byte cb,
                    b_state := BS_NEED_GAPFLAG, b_byte := 0, b_nbit := 0\<rparr>))
        else Inr (nbit_incr cb))
   | BS_NEED_GAPFLAG \<Rightarrow>
       (if b_nbit cb = 8
        then Inr (nbit_incr (cb\<lparr>b_gapflag := b_byte cb, b_cksum := b_cksum cb + b_byte cb,
                    b_state := BS_NEED_STARTADDR, b_byte := 0, b_nbit := 0\<rparr>))
        else Inr (nbit_incr cb))
   | BS_NEED_STARTADDR \<Rightarrow>
       (if b_nbit cb = 8
        then (case store (b_mlstart cb) (b_mlstart_i cb) (b_byte cb) of
                Inl e \<Rightarrow> Inl e
              | Inr arr \<Rightarrow>
                 (let cb1 = cb\<lparr>b_mlstart := arr, b_mlstart_i := b_mlstart_i cb + 1,
                               b_cksum := b_cksum cb + b_byte cb\<rparr>;
                      cb2 = (if unat (b_mlstart_i cb1) = MLSTARTLEN
                             then cb1\<lparr>b_state := BS_NEED_LOADADDR\<rparr> else cb1)
                  in Inr (nbit_incr (cb2\<lparr>b_byte := 0, b_nbit := 0\<rparr>))))
        else Inr (nbit_incr cb))
   | BS_NEED_LOADADDR \<Rightarrow>
       (if b_nbit cb = 8
        then (case store (b_mlload cb) (b_mlload_i cb) (b_byte cb) of
                Inl e \<Rightarrow> Inl e
              | Inr arr \<Rightarrow>
                 (let cb1 = cb\<lparr>b_mlload := arr, b_mlload_i := b_mlload_i cb + 1,
                               b_cksum := b_cksum cb + b_byte cb,
                               b_length := b_length cb - 1\<rparr>;
                      cb2 = (if unat (b_mlload_i cb1) = MLLOADLEN
                             then cb1\<lparr>b_state := BS_NEED_CKSUM\<rparr> else cb1)
                  in Inr (nbit_incr (cb2\<lparr>b_byte := 0, b_nbit := 0\<rparr>))))
        else Inr (nbit_incr cb))
   | BS_NEED_DATA \<Rightarrow>
       (if b_nbit cb = 8
        then (case b_data cb of
                None \<Rightarrow> Inl Err_Fault
              | Some buf \<Rightarrow>
                 (case store buf (b_data_i cb) (b_byte cb) of
                    Inl e \<Rightarrow> Inl e
                  | Inr buf' \<Rightarrow>
                     (let cb1 = cb\<lparr>b_data := Some buf', b_data_i := b_data_i cb + 1,
                                   b_cksum := b_cksum cb + b_byte cb\<rparr>;
                          cb2 = (if b_length cb1 = b_data_i cb1
                                 then cb1\<lparr>b_state := BS_NEED_CKSUM\<rparr> else cb1)
                      in Inr (nbit_incr (cb2\<lparr>b_byte := 0, b_nbit := 0\<rparr>)))))
        else Inr (nbit_incr cb))
   | BS_NEED_CKSUM \<Rightarrow>
       (if b_nbit cb = 8
        then (if b_byte cb \<noteq> b_cksum cb then Inl Err_Cksum
              else Inr (nbit_incr (cb\<lparr>b_state := BS_NEED_LEADBYTE, b_byte := 0, b_nbit := 0\<rparr>)))
        else Inr (nbit_incr cb))
   | BS_NEED_LEADBYTE \<Rightarrow>
       (if b_nbit cb = 8
        then Inr (nbit_incr (cb\<lparr>b_byte := 0, b_nbit := 0, b_state := BS_DONE\<rparr>))
        else Inr (nbit_incr cb))
   | BS_DONE \<Rightarrow> Inl Err_BadState)"

section \<open>Cycle classification\<close>

text \<open>
  The four thresholds are the globals \<open>o_one_low\<close>, \<open>O_one_high\<close>, \<open>z_zero_low\<close>,
  \<open>Z_zero_high\<close>; their initial values are the macros \<open>OL\<close>, \<open>OH\<close>, \<open>ZL\<close>, \<open>ZH\<close>.
\<close>

record thresholds =
  o_one_low :: int
  O_one_high :: int
  z_zero_low :: int
  Z_zero_high :: int

definition ZL :: int where "ZL = 31"
definition ZH :: int where "ZH = 1000"
definition OL :: int where "OL = 18"
definition OH :: int where "OH = 31"

definition default_thresholds :: thresholds where
  "default_thresholds =
     \<lparr>o_one_low = OL, O_one_high = OH, z_zero_low = ZL, Z_zero_high = ZH\<rparr>"

datatype bitclass = One | Zero | Invalid

text \<open>The \<open>if\<close>/\<open>else if\<close>/\<open>else\<close> of \<open>main\<close> on the measured \<open>count\<close>.\<close>

definition classify :: "thresholds \<Rightarrow> int \<Rightarrow> bitclass" where
  "classify th c =
     (if c \<ge> o_one_low th \<and> c \<le> O_one_high th then One
      else if c \<ge> z_zero_low th \<and> c \<le> Z_zero_high th then Zero
      else Invalid)"

text \<open>What each branch does to the byte under assembly.\<close>

definition shift_bit :: "bitclass \<Rightarrow> block \<Rightarrow> block" where
  "shift_bit k cb = (case k of
     One \<Rightarrow> cb\<lparr>b_byte := (drop_bit 1 (b_byte cb)) OR 0x80\<rparr>
   | Zero \<Rightarrow> cb\<lparr>b_byte := drop_bit 1 (b_byte cb)\<rparr>
   | Invalid \<Rightarrow> cb)"

text \<open>
  The part of the body of a falling crossing that works on the current block: classify
  the cycle, shift, then call \<open>process_bit\<close>, whatever the class was.
\<close>

definition cycle_step :: "thresholds \<Rightarrow> bool \<Rightarrow> int \<Rightarrow> block \<Rightarrow> error + block" where
  "cycle_step th malloc_ok c cb = process_bit malloc_ok (shift_bit (classify th c) cb)"

section \<open>Rendering: asciidump and the token tables\<close>

text \<open>Sequencing of steps that can fail: the first failure ends the computation.\<close>

definition bind_err :: "error + 'a \<Rightarrow> ('a \<Rightarrow> error + 'b) \<Rightarrow> error + 'b" where
  "bind_err m f = (case m of Inl e \<Rightarrow> Inl e | Inr x \<Rightarrow> f x)"

definition token :: "string list" where
  "token =
   [''FOR'', ''GO'', ''REM'', [CHR 0x27],
    ''ELSE'', ''IF'', ''DATA'', ''PRINT'',
    ''ON'', ''INPUT'', ''END'', ''NEXT'',
    ''DIM'', ''READ'', ''RUN'', ''RESTORE'',
    ''RETURN'', ''STOP'', ''POKE'', ''CONT'',
    ''LIST'', ''CLEAR'', ''NEW'', ''CLOAD'',
    ''CSAVE'', ''OPEN'', ''CLOSE'', ''LLIST'',
    ''SET'', ''RESET'', ''CLS'', ''MOTOR'',
    ''SOUND'', ''AUDIO'', ''EXEC'', ''SKIPF'',
    ''TAB('', ''TO'', ''SUB'', ''THEN'',
    ''NOT'', ''STEP'', ''OFF'', ''+'',
    ''-'', ''*'', ''/'', ''^'',
    ''AND'', ''OR'', ''>'', ''='',
    ''<'', ''DEL'', ''EDIT'', ''TRON'',
    ''TROFF'', ''DEF'', ''LET'', ''LINE'',
    ''PCLS'', ''PSET'', ''PRESET'', ''SCREEN'',
    ''PCLEAR'', ''COLOR'', ''CIRCLE'', ''PAINT'',
    ''GET'', ''PUT'', ''DRAW'', ''PCOPY'',
    ''PMODE'', ''PLAY'', ''DLOAD'', ''RENUM'',
    ''FN'', ''USING'',
    ''DIR'', ''DRIVE'',
    ''FIELD'', ''FILES'', ''KILL'', ''LOAD'',
    ''LSET'', ''MERGE'', ''RENAME'', ''RSET'',
    ''SAVE'', ''WRITE'', ''VERIFY'', ''UNLOAD'',
    ''DSKINI'', ''BACKUP'', ''COPY'', ''DSKI$'',
    ''DSKO$'']"

definition ftoken :: "string list" where
  "ftoken =
   [''SGN'', ''INT'', ''ABS'', ''USR'',
    ''RND'', ''SIN'', ''PEEK'', ''LEN'',
    ''STR$'', ''VAL'', ''ASC'', ''CHR$'',
    ''EOF'', ''JOYSTK'', ''LEFT$'', ''RIGHT$'',
    ''MID$'', ''POINT'', ''INKEY$'', ''MEM'',
    ''ATN'', ''COS'', ''TAN'', ''EXP'',
    ''FIX'', ''LOG'', ''POS'', ''SQR'',
    ''HEX$'', ''VARPTR'', ''INSTR'', ''TIMER'',
    ''PPOINT'', ''STRING$'',
    ''CVN'', ''FREE'',
    ''LOC'', ''LOF'', ''MKN$'']"

text \<open>\<open>isprint\<close> in the C locale (the program never sets another one).\<close>

definition isprint :: "u8 \<Rightarrow> bool" where
  "isprint c = (0x20 \<le> c \<and> c \<le> 0x7E)"

text \<open>\<open>printf("%c", c)\<close>: the byte itself.\<close>

definition putc_char :: "u8 \<Rightarrow> char" where
  "putc_char c =
     Char (bit c 0) (bit c 1) (bit c 2) (bit c 3) (bit c 4) (bit c 5) (bit c 6) (bit c 7)"

definition putc :: "u8 \<Rightarrow> string" where
  "putc c = [putc_char c]"

definition hexdigit :: "nat \<Rightarrow> char" where
  "hexdigit n = ''0123456789ABCDEF'' ! n"

text \<open>\<open>printf("\\x%02X", c)\<close>: a backslash, an \<open>x\<close> and two upper-case hex digits.\<close>

definition hex_escape :: "u8 \<Rightarrow> string" where
  "hex_escape c = [CHR 0x5C, CHR ''x'', hexdigit (unat c div 16), hexdigit (unat c mod 16)]"

text \<open>\<open>printf("%s", ftoken[n - 0x80])\<close>; an index outside the table is undefined.\<close>

definition ftoken_at :: "u8 \<Rightarrow> error + string" where
  "ftoken_at n =
     (if 0x80 \<le> unat n \<and> unat n - 0x80 < length ftoken then Inr (ftoken ! (unat n - 0x80))
      else Inl Err_Fault)"

text \<open>
  \<open>asciidump bs\<close> is \<open>asciidump(data, size)\<close> on the \<open>size\<close> bytes \<open>bs\<close>; the result is
  what it prints. After the byte \<open>0xFF\<close> the loop steps to the next byte without
  looking at \<open>size\<close>; when \<open>0xFF\<close> is the last byte, that read is outside the bytes
  handed in (in \<open>print_prog\<close> it is a zero or an uninitialised byte of the line buffer,
  and a zero indexes \<open>ftoken\<close> at \<open>-128\<close>).
\<close>

fun asciidump :: "u8 list \<Rightarrow> error + string" where
  "asciidump [] = Inr []"
| "asciidump (c # rest) =
     (if isprint c then
        (case asciidump rest of Inl e \<Rightarrow> Inl e | Inr s \<Rightarrow> Inr (putc c @ s))
      else if c > 0x7f \<and> c < 0xe0 then
        (case asciidump rest of Inl e \<Rightarrow> Inl e
         | Inr s \<Rightarrow> Inr (token ! (unat c - 0x80) @ s))
      else if c = 0xff then
        (case rest of
           [] \<Rightarrow> Inl Err_Fault
         | n # rest' \<Rightarrow>
            (case ftoken_at n of
               Inl e \<Rightarrow> Inl e
             | Inr t \<Rightarrow> (case asciidump rest' of Inl e \<Rightarrow> Inl e | Inr s \<Rightarrow> Inr (t @ s))))
      else if c \<noteq> 0 then
        (case asciidump rest of Inl e \<Rightarrow> Inl e | Inr s \<Rightarrow> Inr (hex_escape c @ s))
      else asciidump rest)"

section \<open>The program reconstructor: print\_prog\<close>

text \<open>
  The cursor of \<open>print_prog\<close>: the chain from the current block on (empty for a NULL
  \<open>cb\<close>), the offset \<open>i\<close> in the current block, and the running block number \<open>blkn\<close>.
\<close>

type_synonym cursor = "block list \<times> nat \<times> u8"

text \<open>\<open>cb->b_data[i]\<close>: undefined through a NULL \<open>cb\<close> or \<open>b_data\<close>, or outside the buffer.\<close>

definition peek :: "block list \<Rightarrow> nat \<Rightarrow> error + u8" where
  "peek cbs i = (case cbs of
     [] \<Rightarrow> Inl Err_Fault
   | cb # _ \<Rightarrow> (case b_data cb of
        None \<Rightarrow> Inl Err_Fault
      | Some buf \<Rightarrow> if i < length buf then Inr (buf ! i) else Inl Err_Fault))"

text \<open>
  \<open>i++; if (i == cb->b_length) { i = 0; cb = cb->b_next; blkn++; }\<close>, the step that
  follows every byte of a record.
\<close>

definition next_byte :: "cursor \<Rightarrow> error + cursor" where
  "next_byte c = (case c of (cbs, i, blkn) \<Rightarrow> (case cbs of
     [] \<Rightarrow> Inl Err_Fault
   | cb # rest \<Rightarrow>
       if i + 1 = unat (b_length cb) then Inr (rest, 0, blkn + 1)
       else Inr (cbs, i + 1, blkn)))"

text \<open>
  The test at the head of the line loop,
  \<open>(cb->b_length - i) == 2 && b_data[i] == 0 && b_data[i+1] == 0 && b_data[i+2] == 0\<close>,
  with the short-circuit order of \<open>&&\<close>.
\<close>

definition end_of_prog :: "block list \<Rightarrow> nat \<Rightarrow> error + bool" where
  "end_of_prog cbs i = (case cbs of
     [] \<Rightarrow> Inl Err_Fault
   | cb # _ \<Rightarrow>
      if int (unat (b_length cb)) - int i \<noteq> 2 then Inr False
      else (case peek cbs i of Inl e \<Rightarrow> Inl e | Inr v0 \<Rightarrow>
        if v0 \<noteq> 0 then Inr False
        else (case peek cbs (i + 1) of Inl e \<Rightarrow> Inl e | Inr v1 \<Rightarrow>
          if v1 \<noteq> 0 then Inr False
          else (case peek cbs (i + 2) of Inl e \<Rightarrow> Inl e | Inr v2 \<Rightarrow> Inr (v2 = 0)))))"

definition LINELEN :: nat where "LINELEN = 4096"

text \<open>
  The inner loop that copies the body of a line up to its null byte into \<open>line\<close>;
  \<open>j\<close> is the number of bytes copied so far. It returns the cursor at the null byte.
\<close>

function copy_line :: "cursor \<Rightarrow> nat \<Rightarrow> u8 list \<Rightarrow> error + (cursor \<times> u8 list)" where
  "copy_line c j line =
     (case peek (fst c) (fst (snd c)) of
        Inl e \<Rightarrow> Inl e
      | Inr v \<Rightarrow>
         if v = 0x00 then Inr (c, line)
         else (case next_byte c of
                 Inl e \<Rightarrow> Inl e
               | Inr c' \<Rightarrow>
                  if j + 1 \<ge> LINELEN then Inl Err_LineTooBig
                  else copy_line c' (j + 1) (line @ [v])))"
  by pat_completeness auto
termination
  by (relation "measure (\<lambda>(c, j, line). LINELEN - j)") auto

declare copy_line.simps [simp del]

text \<open>\<open>printf("%5d ", lineno)\<close> for a 16-bit line number.\<close>

definition decimal :: "nat \<Rightarrow> string" where
  "decimal n =
     (let ds = dropWhile (\<lambda>d. d = 0) (map (\<lambda>p. n div p mod 10) [10000, 1000, 100, 10])
                @ [n mod 10]
      in replicate (5 - length ds) CHR '' '' @ map hexdigit ds)"

text \<open>
  One record of the line loop, from the start-of-line check to the \<open>printf("\n")\<close>:
  the cursor after the record and the text printed for it.
\<close>

definition print_line :: "cursor \<Rightarrow> error + (cursor \<times> string)" where
  "print_line c =
     bind_err (peek (fst c) (fst (snd c))) (\<lambda>tag.
       if tag \<noteq> snd (snd c) \<and> unat tag \<noteq> unat (snd (snd c)) + 1 then Inl Err_BadLine
       else
     bind_err (next_byte c) (\<lambda>c1.
     bind_err (next_byte c1) (\<lambda>c2.
     bind_err (peek (fst c2) (fst (snd c2))) (\<lambda>hi.
     bind_err (next_byte c2) (\<lambda>c3.
     bind_err (peek (fst c3) (fst (snd c3))) (\<lambda>lo.
     bind_err (next_byte c3) (\<lambda>c4.
     bind_err (copy_line c4 0 []) (\<lambda>r.
     bind_err (next_byte (fst r)) (\<lambda>c6.
     bind_err (asciidump (snd r)) (\<lambda>txt.
        Inr (c6, decimal (unat hi * 256 + unat lo) @ '' '' @ txt @ [CHR 0x0A])))))))))))"

text \<open>
  The line loop ends because the cursor only moves forward: \<open>cursor_left\<close> bounds the
  bytes still ahead of it (300 is more than any \<open>b_length\<close>), never grows, and shrinks
  with the step that follows a byte that could be read.
\<close>

definition alloc_size :: "block \<Rightarrow> nat" where
  "alloc_size cb = (case b_data cb of None \<Rightarrow> 0 | Some buf \<Rightarrow> length buf)"

definition cursor_left :: "cursor \<Rightarrow> nat" where
  "cursor_left c = (case c of (cbs, i, blkn) \<Rightarrow> (\<Sum>b\<leftarrow>cbs. alloc_size b + 300) - i)"

lemma bind_err_Inr: "bind_err m f = Inr y \<longleftrightarrow> (\<exists>x. m = Inr x \<and> f x = Inr y)"
  by (cases m) (simp_all add: bind_err_def)

lemma bind_err_simps [simp]:
  "bind_err (Inl e) f = Inl e" "bind_err (Inr x) f = f x"
  by (simp_all add: bind_err_def)

lemma bind_err_weak_cong: "m = m' \<Longrightarrow> bind_err m f = bind_err m' f"
  by simp

lemma next_byte_le: "next_byte c = Inr c' \<Longrightarrow> cursor_left c' \<le> cursor_left c"
proof -
  assume a: "next_byte c = Inr c'"
  obtain cbs i blkn where c: "c = (cbs, i, blkn)" by (cases c)
  show ?thesis
  proof (cases cbs)
    case Nil
    with a c show ?thesis by (simp add: next_byte_def)
  next
    case (Cons cb rest)
    have "unat (b_length cb) < 256"
      using unsigned_less [of "b_length cb", where ?'a = nat] by simp
    with a c Cons show ?thesis
      by (auto simp: next_byte_def cursor_left_def split: if_splits)
  qed
qed

lemma next_byte_less:
  assumes "peek (fst c) (fst (snd c)) = Inr v" and "next_byte c = Inr c'"
  shows "cursor_left c' < cursor_left c"
proof -
  obtain cbs i blkn where c: "c = (cbs, i, blkn)" by (cases c)
  show ?thesis
  proof (cases cbs)
    case Nil
    with assms c show ?thesis by (simp add: next_byte_def)
  next
    case (Cons cb rest)
    have "unat (b_length cb) < 256"
      using unsigned_less [of "b_length cb", where ?'a = nat] by simp
    with assms c Cons show ?thesis
      by (auto simp: next_byte_def peek_def cursor_left_def alloc_size_def
               split: if_splits option.splits)
  qed
qed

lemma copy_line_le:
  "copy_line c j line = Inr (c', line') \<Longrightarrow> cursor_left c' \<le> cursor_left c"
proof (induction c j line rule: copy_line.induct)
  case (1 c j line)
  show ?case
  proof (cases "peek (fst c) (fst (snd c))")
    case (Inl e)
    with "1.prems" show ?thesis by (simp add: copy_line.simps [of c])
  next
    case (Inr v)
    show ?thesis
    proof (cases "v = 0")
      case True
      with Inr "1.prems" show ?thesis by (simp add: copy_line.simps [of c])
    next
      case False
      show ?thesis
      proof (cases "next_byte c")
        case (Inl e)
        with Inr False "1.prems" show ?thesis by (simp add: copy_line.simps [of c])
      next
        case nb: (Inr c1)
        from Inr False nb "1.prems" have big: "\<not> LINELEN \<le> j + 1"
          and rec: "copy_line c1 (j + 1) (line @ [v]) = Inr (c', line')"
          by (auto simp: copy_line.simps [of c] split: if_splits)
        from "1.IH" [OF Inr False nb big rec] have "cursor_left c' \<le> cursor_left c1" .
        also have "\<dots> \<le> cursor_left c" by (rule next_byte_le [OF nb])
        finally show ?thesis .
      qed
    qed
  qed
qed

lemma print_line_less:
  assumes "print_line c = Inr (c', txt)"
  shows "cursor_left c' < cursor_left c"
proof -
  from assms obtain tag c1 c2 c3 c4 r where
    pk: "peek (fst c) (fst (snd c)) = Inr tag"
    and n1: "next_byte c = Inr c1" and n2: "next_byte c1 = Inr c2"
    and n3: "next_byte c2 = Inr c3" and n4: "next_byte c3 = Inr c4"
    and cl: "copy_line c4 0 [] = Inr r" and n5: "next_byte (fst r) = Inr c'"
    unfolding print_line_def by (auto simp: bind_err_Inr split: if_splits)
  have "cursor_left c' \<le> cursor_left (fst r)" by (rule next_byte_le [OF n5])
  also have "\<dots> \<le> cursor_left c4"
    using copy_line_le [of c4 0 "[]" "fst r" "snd r"] cl by simp
  also have "\<dots> \<le> cursor_left c3" by (rule next_byte_le [OF n4])
  also have "\<dots> \<le> cursor_left c2" by (rule next_byte_le [OF n3])
  also have "\<dots> \<le> cursor_left c1" by (rule next_byte_le [OF n2])
  also have "\<dots> < cursor_left c" by (rule next_byte_less [OF pk n1])
  finally show ?thesis .
qed

text \<open>
  The line loop \<open>while(cb) { ... }\<close>: it returns at the end-of-program test, ends when
  the cursor leaves the chain, and otherwise prints one more line. \<open>out\<close> is what has
  been printed so far.
\<close>

function pp_loop :: "cursor \<Rightarrow> string \<Rightarrow> error + string" where
  "pp_loop c out =
     (if fst c = [] then Inr out
      else (case end_of_prog (fst c) (fst (snd c)) of
              Inl e \<Rightarrow> Inl e
            | Inr stop \<Rightarrow>
               if stop then Inr out
               else (case print_line c of
                       Inl e \<Rightarrow> Inl e
                     | Inr (c', txt) \<Rightarrow> pp_loop c' (out @ txt))))"
  by pat_completeness auto
termination
  by (relation "measure (\<lambda>(c, out). cursor_left c)") (auto simp: print_line_less)

declare pp_loop.simps [simp del]

text \<open>\<open>printf("Program: %8s\n", cb->b_progname)\<close> on the null-terminated name.\<close>

definition program_header :: "u8 list \<Rightarrow> string" where
  "program_header arr =
     (let s = map putc_char (takeWhile (\<lambda>c. c \<noteq> 0) arr)
      in ''Program: '' @ replicate (8 - length s) CHR '' '' @ s @ [CHR 0x0A])"

text \<open>
  \<open>print_prog chain\<close> is \<open>print_prog(blocks)\<close> on the chain that starts at \<open>blocks\<close>;
  the result is what it prints (\<open>Inr\<close>), or how it stops the program (\<open>Inl\<close>).
\<close>

definition print_prog :: "block list \<Rightarrow> error + string" where
  "print_prog chain =
     (let hdr = (case chain of
                   [] \<Rightarrow> []
                 | cb # _ \<Rightarrow> if b_state cb = BS_DONE \<and> b_type cb = BT_NAME
                             then program_header (b_progname cb) else []);
          cbs = dropWhile (\<lambda>b. b_type b \<noteq> BT_DATA) chain
      in if cbs = [] then Inr hdr
         else bind_err (peek cbs 0) (\<lambda>blkn. pp_loop (cbs, 0, blkn) hdr))"

section \<open>The decode loop of main\<close>

text \<open>
  The state of the loop over the samples: \<open>count\<close>, \<open>nblocks\<close>, the chain \<open>blocks\<close>
  without the block under construction (\<open>d_blocks\<close>), the block under construction
  \<open>cb\<close> (\<open>None\<close> for NULL; when present it is the last block of the chain) and the
  text printed so far.
\<close>

record decoder =
  d_count :: int
  d_nblocks :: int
  d_blocks :: "block list"
  d_cb :: "block option"
  d_out :: string

text \<open>A block after \<open>memset(cb, 0, sizeof(struct block))\<close> and \<open>b_state = BS_NEED_SYNCBYTE\<close>.\<close>

definition new_block :: block where
  "new_block = \<lparr>b_state = BS_NEED_SYNCBYTE, b_type = BT_NAME, b_length = 0, b_cksum = 0,
     b_data = None, b_progname = replicate (PROGNAMELEN + 1) 0, b_filetype = 0,
     b_asciiflag = 0, b_gapflag = 0, b_mlstart = replicate MLSTARTLEN 0,
     b_mlload = replicate MLLOADLEN 0, b_byte = 0, b_nbit = 0, b_data_i = 0,
     b_progname_i = 0, b_mlstart_i = 0, b_mlload_i = 0\<rparr>"

definition init_decoder :: decoder where
  "init_decoder = \<lparr>d_count = 0, d_nblocks = 0, d_blocks = [], d_cb = None, d_out = []\<rparr>"

text \<open>
  The head of the loop body, \<open>if (!cb) { ... }\<close>: a missing current block is allocated,
  zeroed and counted; \<open>malloc_ok\<close> says whether that allocation succeeds.
\<close>

definition need_block :: "bool \<Rightarrow> decoder \<Rightarrow> error + decoder" where
  "need_block malloc_ok d = (case d_cb d of
     Some cb \<Rightarrow> Inr d
   | None \<Rightarrow> if malloc_ok
             then Inr (d\<lparr>d_cb := Some new_block, d_nblocks := d_nblocks d + 1\<rparr>)
             else Inl Err_Malloc)"

text \<open>
  The end of the body of a falling crossing, after \<open>process_bit\<close> returned 0 and left
  the block \<open>cb\<close>: a block that is done is closed (an end-of-file block prints the
  program and frees the chain, any other stays in the chain) and \<open>cb\<close> becomes NULL;
  then \<open>count\<close> is reset.
\<close>

definition block_done :: "decoder \<Rightarrow> block \<Rightarrow> error + decoder" where
  "block_done d cb =
     (if b_state cb = BS_DONE then
        (if b_type cb = BT_EOF then
           bind_err (print_prog (d_blocks d @ [cb])) (\<lambda>txt.
             Inr (d\<lparr>d_count := 0, d_blocks := [], d_cb := None, d_out := d_out d @ txt\<rparr>))
         else Inr (d\<lparr>d_count := 0, d_blocks := d_blocks d @ [cb], d_cb := None\<rparr>))
      else Inr (d\<lparr>d_count := 0, d_cb := Some cb\<rparr>))"

text \<open>
  The body of \<open>if ((wav.data[j] < 0) && (wav.data[j-1] >= 0)) { ... }\<close> on the current
  block \<open>cb\<close>: classify \<open>count\<close>, shift, \<open>process_bit\<close> (\<open>exit(1)\<close> when it returns 1),
  then the closing of a finished block.
\<close>

definition falling_crossing :: "thresholds \<Rightarrow> bool \<Rightarrow> decoder \<Rightarrow> block \<Rightarrow> error + decoder" where
  "falling_crossing th malloc_ok d cb =
     bind_err (cycle_step th malloc_ok (d_count d) cb) (block_done d)"

text \<open>
  The test for a falling zero crossing, \<open>(wav.data[j] < 0) && (wav.data[j-1] >= 0)\<close>,
  on \<open>prev = data[j-1]\<close> and \<open>cur = data[j]\<close>.
\<close>

definition falling :: "s16 \<Rightarrow> s16 \<Rightarrow> bool" where
  "falling prev cur \<longleftrightarrow> sint cur < 0 \<and> sint prev \<ge> 0"

text \<open>One iteration of the \<open>for\<close> loop, on the samples \<open>prev = data[j-1]\<close>, \<open>cur = data[j]\<close>.\<close>

definition sample_step :: "thresholds \<Rightarrow> bool \<Rightarrow> s16 \<Rightarrow> s16 \<Rightarrow> decoder \<Rightarrow> error + decoder" where
  "sample_step th malloc_ok prev cur d =
     bind_err (need_block malloc_ok d) (\<lambda>d1.
       bind_err (if falling prev cur
                 then (case d_cb d1 of
                         None \<Rightarrow> Inl Err_Fault
                       | Some cb \<Rightarrow> falling_crossing th malloc_ok d1 cb)
                 else Inr d1) (\<lambda>d2.
         Inr (d2\<lparr>d_count := d_count d2 + 1\<rparr>)))"

text \<open>
  The loop \<open>for (j = 1; j < wav.samples; j++)\<close> from index \<open>j\<close> on: \<open>prev\<close> is
  \<open>data[j-1]\<close>, the list holds \<open>data[j]\<close>, \<open>data[j+1]\<close>, ...; \<open>mem j\<close> says whether the
  allocation made in iteration \<open>j\<close> (there is at most one) succeeds.
\<close>

fun decode_loop ::
  "thresholds \<Rightarrow> (nat \<Rightarrow> bool) \<Rightarrow> nat \<Rightarrow> s16 \<Rightarrow> s16 list \<Rightarrow> decoder \<Rightarrow> error + decoder" where
  "decode_loop th mem j prev [] d = Inr d"
| "decode_loop th mem j prev (x # xs) d =
     (case sample_step th (mem j) prev x d of
        Inl e \<Rightarrow> Inl e
      | Inr d' \<Rightarrow> decode_loop th mem (Suc j) x xs d')"

definition decode :: "thresholds \<Rightarrow> (nat \<Rightarrow> bool) \<Rightarrow> s16 list \<Rightarrow> error + decoder" where
  "decode th mem samples = (case samples of
     [] \<Rightarrow> Inr init_decoder
   | x # xs \<Rightarrow> decode_loop th mem 1 x xs init_decoder)"



section \<open>Vocabulary of the properties\<close>

text \<open>The two assignments to \<open>b_byte\<close> in \<open>main\<close>, on the byte alone.\<close>

definition shift_byte :: "bitclass \<Rightarrow> u8 \<Rightarrow> u8" where
  "shift_byte k x = (case k of One \<Rightarrow> drop_bit 1 x OR 0x80 | Zero \<Rightarrow> drop_bit 1 x | Invalid \<Rightarrow> x)"

text \<open>The bits of a byte in the order of the tape, least significant first, as classes of cycles.\<close>

definition byte_bits :: "u8 \<Rightarrow> bitclass list" where
  "byte_bits v = map (\<lambda>i. if bit v i then One else Zero) [0..<8]"

text \<open>The bits of a sequence of bytes.\<close>

definition frame_bits :: "u8 list \<Rightarrow> bitclass list" where
  "frame_bits bs = concat (map byte_bits bs)"

text \<open>Successive falling crossings on one block: the cycles of lengths \<open>cs\<close>, each classified, shifted and handed to \<open>process_bit\<close>; the first error ends the run.\<close>

primrec block_cycles :: "thresholds \<Rightarrow> bool \<Rightarrow> int list \<Rightarrow> block \<Rightarrow> error + block" where
  "block_cycles th ok [] cb = Inr cb"
| "block_cycles th ok (c # cs) cb =
     (case cycle_step th ok c cb of
        Inl e \<Rightarrow> Inl e
      | Inr cb' \<Rightarrow> block_cycles th ok cs cb')"

text \<open>Successive completed bytes handed to \<open>process_bit\<close> (the bit counter at 8).\<close>

primrec feed_bytes :: "bool \<Rightarrow> u8 list \<Rightarrow> block \<Rightarrow> error + block" where
  "feed_bytes ok [] cb = Inr cb"
| "feed_bytes ok (v # vs) cb =
     (case process_bit ok (cb\<lparr>b_byte := v, b_nbit := 8\<rparr>) of
        Inl e \<Rightarrow> Inl e
      | Inr cb' \<Rightarrow> feed_bytes ok vs cb')"

text \<open>\<open>collects ok vs cb\<close>: while the bytes \<open>vs\<close> arrive, the block is in a byte-collecting state with one bit counted at the start of each byte.\<close>

primrec collects :: "bool \<Rightarrow> u8 list \<Rightarrow> block \<Rightarrow> bool" where
  "collects ok [] cb = True"
| "collects ok (v # vs) cb =
     (b_state cb \<noteq> BS_NEED_SYNCBYTE \<and> b_state cb \<noteq> BS_DONE \<and> b_nbit cb = 1
      \<and> (case process_bit ok (cb\<lparr>b_byte := v, b_nbit := 8\<rparr>) of
            Inl e \<Rightarrow> True
          | Inr cb' \<Rightarrow> collects ok vs cb'))"

text \<open>A block right after its sync byte was found, none of its fields filled yet.\<close>

definition awaiting_type :: "block \<Rightarrow> bool" where
  "awaiting_type cb \<longleftrightarrow>
     b_state cb = BS_NEED_BLOCKTYPE \<and> b_nbit cb = 1 \<and> b_data_i cb = 0
     \<and> b_progname_i cb = 0 \<and> b_mlstart_i cb = 0 \<and> b_mlload_i cb = 0
     \<and> length (b_progname cb) = PROGNAMELEN + 1
     \<and> length (b_mlstart cb) = MLSTARTLEN \<and> length (b_mlload cb) = MLLOADLEN"


text \<open>\<open>data_block payload\<close> is a completed Data block that holds \<open>payload\<close>, as the state machine leaves it: the buffer is the payload followed by the byte allocated beyond it.\<close>

definition data_block :: "u8 list \<Rightarrow> block" where
  "data_block payload = new_block\<lparr>b_state := BS_DONE, b_type := BT_DATA,
     b_length := of_nat (length payload), b_cksum := 1 + of_nat (length payload) + sum_list payload,
     b_data := Some (payload @ [0]),
     b_nbit := 1, b_data_i := of_nat (length payload)\<rparr>"

text \<open>The block a falling crossing works on: the current block, or a fresh one when \<open>cb\<close> is NULL.\<close>

definition cur :: "decoder \<Rightarrow> block" where
  "cur d = (case d_cb d of None \<Rightarrow> new_block | Some cb \<Rightarrow> cb)"

text \<open>The decoder after the head of the loop body has supplied a missing block, with \<open>count\<close> left aside: two decoders with the same \<open>settle\<close> differ only in \<open>count\<close> and in whether the fresh block is allocated yet.\<close>

definition settle :: "decoder \<Rightarrow> decoder" where
  "settle d = (case d_cb d of
      None \<Rightarrow> d\<lparr>d_count := 0, d_nblocks := d_nblocks d + 1, d_cb := Some new_block\<rparr>
    | Some cb \<Rightarrow> d\<lparr>d_count := 0\<rparr>)"

text \<open>\<open>settle\<close> on the outcome of a run.\<close>

definition settled :: "error + decoder \<Rightarrow> error + decoder" where
  "settled r = (case r of Inl e \<Rightarrow> Inl e | Inr d \<Rightarrow> Inr (settle d))"

text \<open>What a falling crossing does after \<open>process_bit\<close> returned the block \<open>cb\<close>: \<open>block_done\<close>, then \<open>count++\<close>.\<close>

definition close_block :: "decoder \<Rightarrow> block \<Rightarrow> error + decoder" where
  "close_block d cb = bind_err (block_done (settle d) cb) (\<lambda>d2. Inr (d2\<lparr>d_count := 1\<rparr>))"

text \<open>One falling crossing of the loop of \<open>main\<close> where \<open>count\<close> is \<open>c\<close> and every allocation succeeds: an iteration of the loop at two samples that fall through zero.\<close>

definition crossing :: "thresholds \<Rightarrow> int \<Rightarrow> decoder \<Rightarrow> error + decoder" where
  "crossing th c d = sample_step th True 0 (- 1) (d\<lparr>d_count := c\<rparr>)"

text \<open>A run of falling crossings with the measured counts \<open>cs\<close>.\<close>

primrec crossings :: "thresholds \<Rightarrow> int list \<Rightarrow> decoder \<Rightarrow> error + decoder" where
  "crossings th [] d = Inr d"
| "crossings th (c # cs) d =
     (case crossing th c d of Inl e \<Rightarrow> Inl e | Inr d' \<Rightarrow> crossings th cs d')"

text \<open>The values of \<open>count\<close> at the falling crossings of the loop, started with the count \<open>n\<close> after the sample \<open>prev\<close>.\<close>

fun cycle_counts :: "int \<Rightarrow> s16 \<Rightarrow> s16 list \<Rightarrow> int list" where
  "cycle_counts n prev [] = []"
| "cycle_counts n prev (x # xs) =
     (if falling prev x then n # cycle_counts 1 x xs
      else cycle_counts (n + 1) x xs)"

text \<open>The counts measured over a whole sample sequence; the loop starts at index 1 with \<open>count = 0\<close>.\<close>

definition measured_cycles :: "s16 list \<Rightarrow> int list" where
  "measured_cycles samples = (case samples of [] \<Rightarrow> [] | x # xs \<Rightarrow> cycle_counts 0 x xs)"

text \<open>The nominal cycle lengths at 44100 samples per second: 18 samples for a one (2400 Hz), 36 for a zero (1200 Hz).\<close>

definition bit_cycle :: "bitclass \<Rightarrow> int" where
  "bit_cycle k = (case k of One \<Rightarrow> 18 | Zero \<Rightarrow> 36 | Invalid \<Rightarrow> 0)"

text \<open>The nominal cycle lengths that encode a sequence of bytes.\<close>

definition tape_cycles :: "u8 list \<Rightarrow> int list" where
  "tape_cycles bs = map bit_cycle (frame_bits bs)"

text \<open>One cycle of \<open>n\<close> samples, from its falling crossing on: the negative half, then the non-negative half.\<close>

definition cycle_wave :: "int \<Rightarrow> s16 list" where
  "cycle_wave n = replicate (nat n div 2) (- 1) @ replicate (nat n - nat n div 2) 1"

text \<open>A synthetic waveform with the given cycle lengths: a non-negative first sample, the cycles, and the falling crossing that ends the last cycle.\<close>

definition wave_of :: "int list \<Rightarrow> s16 list" where
  "wave_of cs = 1 # concat (map cycle_wave cs) @ [- 1]"

text \<open>What a run has produced, leaving the block under construction aside: the completed blocks in the chain and the text printed, or the error that ended it.\<close>

definition outcome :: "error + decoder \<Rightarrow> error + (block list \<times> string)" where
  "outcome r = (case r of Inl e \<Rightarrow> Inl e | Inr d \<Rightarrow> Inr (d_blocks d, d_out d))"

text \<open>Two decoders that hold the same chain and output and work on the same block, or on two blocks that both await the sync byte and differ in the bit counter only.\<close>

definition scanning_alike :: "decoder \<Rightarrow> decoder \<Rightarrow> bool" where
  "scanning_alike d1 d2 \<longleftrightarrow>
     d_blocks d1 = d_blocks d2 \<and> d_out d1 = d_out d2
     \<and> d_nblocks (settle d1) = d_nblocks (settle d2)
     \<and> (cur d1 = cur d2
         \<or> b_state (cur d2) = BS_NEED_SYNCBYTE \<and> cur d1 = (cur d2)\<lparr>b_nbit := b_nbit (cur d1)\<rparr>)"

section \<open>Properties of the cycle classifier\<close>

text \<open>
  Claim C3 (amended). For every measured cycle length \<open>c\<close> and every threshold
  configuration, the cycle is classified One iff \<open>one_low \<le> c \<le> one_high\<close>; otherwise
  Zero iff \<open>zero_low \<le> c \<le> zero_high\<close>; otherwise Invalid. The boundary values behave
  as closed intervals when the configuration is ordered: \<open>c = one_high\<close> is One whenever
  \<open>one_low \<le> one_high\<close>, and \<open>c = zero_low\<close> is Zero whenever \<open>zero_low \<le> zero_high\<close>
  and \<open>zero_low\<close> lies outside the One interval, which is tested first. Every \<open>c\<close>
  strictly between \<open>one_high\<close> and \<open>zero_low\<close> is Invalid.
\<close>

theorem classify_closed_intervals:
  "(classify th c = One \<longleftrightarrow> o_one_low th \<le> c \<and> c \<le> O_one_high th)
   \<and> (classify th c = Zero \<longleftrightarrow>
        \<not> (o_one_low th \<le> c \<and> c \<le> O_one_high th)
        \<and> z_zero_low th \<le> c \<and> c \<le> Z_zero_high th)
   \<and> (classify th c = Invalid \<longleftrightarrow>
        \<not> (o_one_low th \<le> c \<and> c \<le> O_one_high th)
        \<and> \<not> (z_zero_low th \<le> c \<and> c \<le> Z_zero_high th))
   \<and> (o_one_low th \<le> O_one_high th \<longrightarrow> classify th (O_one_high th) = One)
   \<and> (z_zero_low th \<le> Z_zero_high th
        \<and> \<not> (o_one_low th \<le> z_zero_low th \<and> z_zero_low th \<le> O_one_high th)
        \<longrightarrow> classify th (z_zero_low th) = Zero)
   \<and> (O_one_high th < c \<and> c < z_zero_low th \<longrightarrow> classify th c = Invalid)"
  by (simp add: classify_def)

theorem classify_closed_intervals_witness:
  "classify \<lparr>o_one_low = 18, O_one_high = 31, z_zero_low = 33, Z_zero_high = 1000\<rparr> 32 = Invalid
   \<and> classify \<lparr>o_one_low = 18, O_one_high = 31, z_zero_low = 33, Z_zero_high = 1000\<rparr> 31 = One
   \<and> classify \<lparr>o_one_low = 18, O_one_high = 31, z_zero_low = 33, Z_zero_high = 1000\<rparr> 33 = Zero"
  using classify_closed_intervals
    [of "\<lparr>o_one_low = 18, O_one_high = 31, z_zero_low = 33, Z_zero_high = 1000\<rparr>" 32]
  by simp

text \<open>
  Claim C3 as stated fails where the two intervals touch: with the thresholds 18, 31,
  31, 1000 (the initial values of the four globals) the length \<open>c = zero_low = 31\<close> is
  classified One, not Zero.
\<close>

theorem zero_low_classified_one:
  "classify \<lparr>o_one_low = 18, O_one_high = 31, z_zero_low = 31, Z_zero_high = 1000\<rparr> 31 = One"
  by (simp add: classify_def)

text \<open>
  Claim C8. The usage text of the program gives the defaults as 18, 31, 32 and
  infinity. The globals start at \<open>OL = 18\<close>, \<open>OH = 31\<close>, \<open>ZL = 31\<close> and \<open>ZH = 1000\<close>:
  without any option a cycle of 1001 samples is noise.
\<close>

theorem default_thresholds_values:
  "o_one_low default_thresholds = 18 \<and> O_one_high default_thresholds = 31
   \<and> z_zero_low default_thresholds = 31 \<and> Z_zero_high default_thresholds = 1000
   \<and> classify default_thresholds 1001 = Invalid"
  by (simp add: default_thresholds_def classify_def ZL_def ZH_def OL_def OH_def)

section \<open>Noise cycles\<close>

lemma process_bit_collect:
  "b_state cb \<noteq> BS_NEED_SYNCBYTE \<Longrightarrow> b_state cb \<noteq> BS_DONE \<Longrightarrow> b_nbit cb \<noteq> 8
   \<Longrightarrow> process_bit ok cb = Inr (nbit_incr cb)"
  by (cases "b_state cb") (simp_all add: process_bit_def)

lemma process_bit_nosync:
  "b_state cb = BS_NEED_SYNCBYTE \<Longrightarrow> b_byte cb \<noteq> SYNCBYTE \<Longrightarrow> process_bit ok cb = Inr cb"
  by (simp add: process_bit_def)

lemma process_bit_sync_clean:
  assumes "process_bit ok0 cb0 = Inr cb" "b_state cb = BS_NEED_SYNCBYTE"
  shows "b_byte cb \<noteq> SYNCBYTE"
  using assms
  by (cases "b_state cb0")
    (auto simp: process_bit_def nbit_incr_def Let_def SYNCBYTE_def
      split: if_splits sum.splits option.splits)

lemma process_bit_completes:
  assumes "b_state cb \<noteq> BS_NEED_SYNCBYTE" "b_nbit cb = 8" "process_bit ok cb = Inr cb'"
  shows "b_nbit cb' = 1 \<and> b_byte cb' = 0"
  using assms
  by (cases "b_state cb")
    (auto simp: process_bit_def nbit_incr_def Let_def
      split: if_splits sum.splits option.splits)

text \<open>
  Claim C4 (amended). For every cycle classified Invalid no bit is shifted into the
  byte under assembly, but \<open>process_bit\<close> still runs for that cycle, on the byte as it
  stands. While the block awaits the sync byte, the block after the noise cycle equals
  the block before it; the byte under assembly is not the sync byte there, neither in a
  fresh block nor in a block that \<open>process_bit\<close> returned. In every byte-collecting
  state (block type to lead byte) the noise cycle takes up one of the eight bit slots of
  the byte under assembly, as a classified bit does: while the bit counter is not 8 it
  advances by one and nothing else changes; when the bit counter is 8 the byte under
  assembly is complete as it stands and is handled as a completed byte, after which,
  unless the run ends there, the bit counter is 1 and the byte under assembly is 0.
\<close>

theorem noise_cycle_step:
  assumes "classify th c = Invalid"
  shows "cycle_step th ok c cb = process_bit ok cb
     \<and> (b_state cb = BS_NEED_SYNCBYTE \<and> b_byte cb \<noteq> SYNCBYTE
          \<longrightarrow> cycle_step th ok c cb = Inr cb)
     \<and> (b_state cb = BS_NEED_SYNCBYTE \<and> (cb = new_block \<or> process_bit ok0 cb0 = Inr cb)
          \<longrightarrow> b_byte cb \<noteq> SYNCBYTE \<and> cycle_step th ok c cb = Inr cb)
     \<and> (b_state cb \<noteq> BS_NEED_SYNCBYTE \<and> b_state cb \<noteq> BS_DONE \<and> b_nbit cb \<noteq> 8
          \<longrightarrow> cycle_step th ok c cb = Inr (cb\<lparr>b_nbit := b_nbit cb + 1\<rparr>))
     \<and> (b_state cb \<noteq> BS_NEED_SYNCBYTE \<and> b_state cb \<noteq> BS_DONE \<and> b_nbit cb = 8
          \<longrightarrow> cycle_step th ok c cb = feed_bytes ok [b_byte cb] cb
              \<and> (\<forall>cb'. cycle_step th ok c cb = Inr cb' \<longrightarrow> b_nbit cb' = 1 \<and> b_byte cb' = 0))"
proof -
  have a: "cycle_step th ok c cb = process_bit ok cb"
    using assms by (simp add: cycle_step_def shift_bit_def)
  have clean: "b_state cb = BS_NEED_SYNCBYTE \<and> (cb = new_block \<or> process_bit ok0 cb0 = Inr cb)
      \<longrightarrow> b_byte cb \<noteq> SYNCBYTE"
    using process_bit_sync_clean [of ok0 cb0 cb] by (auto simp: new_block_def SYNCBYTE_def)
  have fb: "b_nbit cb = 8 \<longrightarrow> feed_bytes ok [b_byte cb] cb = process_bit ok cb"
  proof
    assume "b_nbit cb = 8"
    then have "cb\<lparr>b_byte := b_byte cb, b_nbit := 8\<rparr> = cb" by (intro block.equality) simp_all
    then show "feed_bytes ok [b_byte cb] cb = process_bit ok cb" by (simp split: sum.splits)
  qed
  show ?thesis
    unfolding a
    using clean fb process_bit_collect [of cb ok] process_bit_nosync [of cb ok]
      process_bit_completes [of cb ok]
    by (auto simp: nbit_incr_def)
qed

theorem noise_cycle_step_witness:
  "classify default_thresholds 5 = Invalid
   \<and> cycle_step default_thresholds True 5 new_block = Inr new_block
   \<and> cycle_step default_thresholds True 5 (new_block\<lparr>b_state := BS_NEED_LENGTH, b_nbit := 3\<rparr>)
       = Inr (new_block\<lparr>b_state := BS_NEED_LENGTH, b_nbit := 4\<rparr>)
   \<and> cycle_step default_thresholds True 5
         (new_block\<lparr>b_state := BS_NEED_LEADBYTE, b_byte := 0x2A, b_nbit := 8\<rparr>)
       = Inr (new_block\<lparr>b_state := BS_DONE, b_byte := 0, b_nbit := 1\<rparr>)"
proof -
  have h: "classify default_thresholds 5 = Invalid"
    by (simp add: default_thresholds_def classify_def ZL_def ZH_def OL_def OH_def)
  have s: "cycle_step default_thresholds True 5 new_block = Inr new_block"
    using noise_cycle_step [OF h, where ok = True and cb = new_block,
        THEN conjunct2, THEN conjunct2, THEN conjunct1]
    by (simp add: new_block_def)
  have n: "cycle_step default_thresholds True 5 (new_block\<lparr>b_state := BS_NEED_LENGTH, b_nbit := 3\<rparr>)
       = Inr (new_block\<lparr>b_state := BS_NEED_LENGTH, b_nbit := 4\<rparr>)"
    using noise_cycle_step [OF h, where ok = True
        and cb = "new_block\<lparr>b_state := BS_NEED_LENGTH, b_nbit := 3\<rparr>",
        THEN conjunct2, THEN conjunct2, THEN conjunct2, THEN conjunct1]
    by (simp add: new_block_def)
  have e: "cycle_step default_thresholds True 5
         (new_block\<lparr>b_state := BS_NEED_LEADBYTE, b_byte := 0x2A, b_nbit := 8\<rparr>)
       = Inr (new_block\<lparr>b_state := BS_DONE, b_byte := 0, b_nbit := 1\<rparr>)"
    using noise_cycle_step [OF h, where ok = True
        and cb = "new_block\<lparr>b_state := BS_NEED_LEADBYTE, b_byte := 0x2A, b_nbit := 8\<rparr>",
        THEN conjunct2, THEN conjunct2, THEN conjunct2, THEN conjunct2]
    by (simp add: new_block_def process_bit_def nbit_incr_def)
  from h s n e show ?thesis by simp
qed

text \<open>
  Claim C4 as stated fails in every byte-collecting state: a cycle of 5 samples is
  noise under the initial thresholds, and on a block that awaits its block type with
  one bit counted it moves the bit counter from 1 to 2.
\<close>

theorem noise_advances_bit_counter:
  "classify default_thresholds 5 = Invalid
   \<and> cycle_step default_thresholds True 5
        (new_block\<lparr>b_state := BS_NEED_BLOCKTYPE, b_nbit := 1\<rparr>)
      = Inr (new_block\<lparr>b_state := BS_NEED_BLOCKTYPE, b_nbit := 2\<rparr>)"
  by (simp add: default_thresholds_def classify_def ZL_def ZH_def OL_def OH_def
      cycle_step_def shift_bit_def process_bit_def nbit_incr_def new_block_def)

section \<open>Properties of the rendering\<close>

lemma isprint_iff: "isprint c \<longleftrightarrow> 32 \<le> unat c \<and> unat c \<le> 126"
  by (simp add: isprint_def word_le_nat_alt)

lemma length_ftoken: "length ftoken = 39"
  by (simp add: ftoken_def)

lemma ftoken_at_in_table:
  "0x80 \<le> n \<Longrightarrow> n \<le> 0xA6 \<Longrightarrow> ftoken_at n = Inr (ftoken ! (unat n - 0x80))"
  by (simp add: ftoken_at_def length_ftoken word_le_nat_alt)

lemmas render_eval = putc_def putc_char_def isprint_iff token_def ftoken_def ftoken_at_def
  hex_escape_def hexdigit_def

text \<open>
  Claim C6 (amended). Rendering a line-body byte: a printable ASCII byte is emitted
  as it is; a byte in \<open>[0x80, 0xE0)\<close>, that is \<open>0x80\<close> to \<open>0xDF\<close> inclusive, is emitted
  as the operator keyword at index \<open>byte - 0x80\<close> (\<open>0x80\<close> renders as FOR); the byte
  \<open>0xFF\<close> consumes the following byte and emits the function keyword at index
  \<open>next_byte - 0x80\<close> when that index is in the table (\<open>{0xFF, 0x80}\<close> renders as SGN);
  any other non-zero byte is emitted in escaped hex form (\<open>0x01\<close> renders as
  \<open>\x01\<close>). A zero byte prints nothing; the body of a line holds none.
\<close>

theorem asciidump_byte:
  "(isprint c \<longrightarrow>
      asciidump (c # rest) = bind_err (asciidump rest) (\<lambda>s. Inr (putc c @ s)))
   \<and> (0x80 \<le> c \<and> c < 0xE0 \<longrightarrow>
      asciidump (c # rest) = bind_err (asciidump rest) (\<lambda>s. Inr (token ! (unat c - 0x80) @ s)))
   \<and> (0x80 \<le> n \<and> n \<le> 0xA6 \<longrightarrow>
      asciidump (0xFF # n # rest)
        = bind_err (asciidump rest) (\<lambda>s. Inr (ftoken ! (unat n - 0x80) @ s)))
   \<and> (c \<noteq> 0 \<and> (c < 0x20 \<or> c = 0x7F \<or> 0xE0 \<le> c \<and> c < 0xFF) \<longrightarrow>
      asciidump (c # rest) = bind_err (asciidump rest) (\<lambda>s. Inr (hex_escape c @ s)))
   \<and> asciidump (0 # rest) = asciidump rest
   \<and> asciidump [0x80] = Inr ''FOR''
   \<and> asciidump [0xFF, 0x80] = Inr ''SGN''
   \<and> asciidump [0x01] = Inr [CHR 0x5C, CHR ''x'', CHR ''0'', CHR ''1'']"
proof (intro conjI impI)
  assume "isprint c"
  then show "asciidump (c # rest) = bind_err (asciidump rest) (\<lambda>s. Inr (putc c @ s))"
    by (simp add: bind_err_def)
next
  assume "0x80 \<le> c \<and> c < 0xE0"
  then show "asciidump (c # rest) = bind_err (asciidump rest) (\<lambda>s. Inr (token ! (unat c - 0x80) @ s))"
    by (auto simp: bind_err_def isprint_iff word_le_nat_alt word_less_nat_alt)
next
  assume "0x80 \<le> n \<and> n \<le> 0xA6"
  then show "asciidump (0xFF # n # rest)
        = bind_err (asciidump rest) (\<lambda>s. Inr (ftoken ! (unat n - 0x80) @ s))"
    by (simp add: bind_err_def isprint_iff ftoken_at_in_table)
next
  assume "c \<noteq> 0 \<and> (c < 0x20 \<or> c = 0x7F \<or> 0xE0 \<le> c \<and> c < 0xFF)"
  then show "asciidump (c # rest) = bind_err (asciidump rest) (\<lambda>s. Inr (hex_escape c @ s))"
    by (auto simp: bind_err_def isprint_iff word_le_nat_alt word_less_nat_alt)
next
  show "asciidump (0 # rest) = asciidump rest"
    by (simp add: isprint_iff)
next
  show "asciidump [0x80] = Inr ''FOR''" by (simp add: render_eval)
next
  show "asciidump [0xFF, 0x80] = Inr ''SGN''" by (simp add: render_eval)
next
  show "asciidump [0x01] = Inr [CHR 0x5C, CHR ''x'', CHR ''0'', CHR ''1'']"
    by (simp add: render_eval)
qed

theorem asciidump_byte_witness:
  "isprint 0x41 \<and> asciidump [0x41, 0x8F] = Inr ''ARESTORE''
   \<and> asciidump [0xFF, 0xA6, 0x7F] = Inr (''MKN$'' @ [CHR 0x5C, CHR ''x'', CHR ''7'', CHR ''F''])"
proof -
  have p: "isprint 0x41" by (simp add: isprint_iff)
  have pc: "putc 0x41 = ''A''" by (simp add: render_eval)
  have a: "asciidump [0x8F] = Inr ''RESTORE''"
    using asciidump_byte [of "0x8F" "[]" 0, THEN conjunct2, THEN conjunct1]
    by (simp add: token_def del: asciidump.simps(2))
  have b: "asciidump [0x7F] = Inr [CHR 0x5C, CHR ''x'', CHR ''7'', CHR ''F'']"
    using asciidump_byte [of "0x7F" "[]" 0, THEN conjunct2, THEN conjunct2, THEN conjunct2, THEN conjunct1]
    by (simp add: hex_escape_def hexdigit_def del: asciidump.simps(2))
  have c: "asciidump [0x41, 0x8F] = Inr ''ARESTORE''"
    using p asciidump_byte [of "0x41" "[0x8F]" 0, THEN conjunct1]
    by (simp add: a pc del: asciidump.simps(2))
  have d: "asciidump [0xFF, 0xA6, 0x7F] = Inr (''MKN$'' @ [CHR 0x5C, CHR ''x'', CHR ''7'', CHR ''F''])"
    using asciidump_byte [of 0 "[0x7F]" "0xA6", THEN conjunct2, THEN conjunct2, THEN conjunct1]
    by (simp add: b ftoken_def del: asciidump.simps(2))
  from p c d show ?thesis by (simp del: asciidump.simps(2))
qed

text \<open>
  Claim C6 as stated ends the operator range before \<open>0xDF\<close>, which would make that
  byte an escaped hex form; the test in \<open>asciidump\<close> is \<open>< 0xe0\<close>, and \<open>0xDF\<close> renders
  as the keyword at index \<open>0x5F\<close>.
\<close>

theorem token_0xDF_rendered:
  "asciidump [0xDF] = Inr ''DSKI$''"
  by (simp add: render_eval)

section \<open>Properties of the program reconstructor\<close>

lemmas pp_eval = print_prog_def pp_loop.simps end_of_prog_def print_line_def peek_def
  next_byte_def data_block_def new_block_def copy_line.simps LINELEN_def decimal_def
  numeral_3_eq_3 PROGNAMELEN_def MLSTARTLEN_def MLLOADLEN_def

lemma peek_Cons:
  "peek (cb # rest) i = (case b_data cb of None \<Rightarrow> Inl Err_Fault
      | Some buf \<Rightarrow> if i < length buf then Inr (buf ! i) else Inl Err_Fault)"
  by (simp add: peek_def)

lemma length_minus_i: "uint (b_length cb) - int i = 2 \<longleftrightarrow> unat (b_length cb) = i + 2"
  unfolding uint_nat by linarith

text \<open>
  Claim C5 (amended). The end-of-program test of the reconstructor succeeds exactly
  when, at the start of a line record, the remaining bytes in the current block are
  exactly two (\<open>b_length - i = 2\<close>) and the bytes at the offsets \<open>i\<close>, \<open>i + 1\<close> and
  \<open>i + 2\<close> are zero, the last of them being the byte allocated after the payload; it
  then returns successfully without rendering further lines.
\<close>

theorem end_of_program_test:
  "(end_of_prog (cb # rest) i = Inr True \<longleftrightarrow>
      unat (b_length cb) = i + 2
      \<and> (\<exists>buf. b_data cb = Some buf \<and> i + 2 < length buf
            \<and> buf ! i = 0 \<and> buf ! (i + 1) = 0 \<and> buf ! (i + 2) = 0))
   \<and> (end_of_prog (cb # rest) i = Inr True \<longrightarrow> pp_loop (cb # rest, i, blkn) out = Inr out)"
proof (intro conjI impI)
  show "end_of_prog (cb # rest) i = Inr True \<longleftrightarrow>
      unat (b_length cb) = i + 2
      \<and> (\<exists>buf. b_data cb = Some buf \<and> i + 2 < length buf
            \<and> buf ! i = 0 \<and> buf ! (i + 1) = 0 \<and> buf ! (i + 2) = 0)"
    by (cases "b_data cb") (auto simp: end_of_prog_def peek_Cons length_minus_i split: if_splits)
next
  assume "end_of_prog (cb # rest) i = Inr True"
  then show "pp_loop (cb # rest, i, blkn) out = Inr out"
    by (simp add: pp_loop.simps [of "(cb # rest, i, blkn)"])
qed
theorem end_of_program_test_witness:
  "end_of_prog [data_block [0x1E, 0x10, 0x00, 0x0A, 0x41, 0x00, 0, 0]] 6 = Inr True
   \<and> pp_loop ([data_block [0x1E, 0x10, 0x00, 0x0A, 0x41, 0x00, 0, 0]], 6, 0x1E) (''   10 A'' @ [CHR 0x0A])
       = Inr (''   10 A'' @ [CHR 0x0A])
   \<and> print_prog [data_block [0x1E, 0x10, 0x00, 0x0A, 0x41, 0x00, 0, 0]] = Inr (''   10 A'' @ [CHR 0x0A])"
proof -
  have t: "end_of_prog [data_block [0x1E, 0x10, 0x00, 0x0A, 0x41, 0x00, 0, 0]] 6 = Inr True"
    by (simp add: pp_eval cong: bind_err_weak_cong)
  have p: "print_prog [data_block [0x1E, 0x10, 0x00, 0x0A, 0x41, 0x00, 0, 0]] = Inr (''   10 A'' @ [CHR 0x0A])"
    by (simp add: pp_eval render_eval cong: bind_err_weak_cong)
  from t p end_of_program_test [of "data_block [0x1E, 0x10, 0x00, 0x0A, 0x41, 0x00, 0, 0]" "[]" 6
      "0x1E" "''   10 A'' @ [CHR 0x0A]", THEN conjunct2]
  show ?thesis by simp
qed

text \<open>
  Claim C5 as stated fails: when a line is followed by exactly three remaining bytes,
  all zero, the test does not succeed, and the start-of-line check stops the program
  with \<open>exit(1)\<close> instead.
\<close>

theorem three_zero_bytes_left:
  "print_line ([data_block [0x1E, 0x10, 0x00, 0x0A, 0x41, 0x00, 0, 0, 0]], 0, 0x1E)
     = Inr (([data_block [0x1E, 0x10, 0x00, 0x0A, 0x41, 0x00, 0, 0, 0]], 6, 0x1E),
            ''   10 A'' @ [CHR 0x0A])
   \<and> end_of_prog [data_block [0x1E, 0x10, 0x00, 0x0A, 0x41, 0x00, 0, 0, 0]] 6 = Inr False
   \<and> print_prog [data_block [0x1E, 0x10, 0x00, 0x0A, 0x41, 0x00, 0, 0, 0]] = Inl Err_BadLine"
  by (simp add: pp_eval render_eval cong: bind_err_weak_cong)

section \<open>Bits and bytes on one block\<close>

lemma bit_0x80: "bit (0x80 :: u8) n \<longleftrightarrow> n = 7"
proof -
  have "(0x80 :: u8) = push_bit 7 1" by simp
  then show ?thesis by (simp only: bit_push_bit_iff) (auto simp: bit_1_iff)
qed

lemma bit_shift_byte:
  "bit (shift_byte (if b then One else Zero) x) n \<longleftrightarrow> (n = 7 \<and> b) \<or> (n < 7 \<and> bit x (Suc n))"
proof -
  have lt: "bit x (Suc n) \<Longrightarrow> n < 7" using bit_imp_le_length [of x "Suc n"] by simp
  have one: "bit (drop_bit (Suc 0) x OR (0x80 :: u8)) n \<longleftrightarrow> bit x (Suc n) \<or> n = 7"
    by (simp only: bit_or_iff bit_drop_bit_eq bit_0x80) simp
  have zero: "bit (drop_bit (Suc 0) x) n \<longleftrightarrow> bit x (Suc n)"
    by (simp only: bit_drop_bit_eq) simp
  show ?thesis
    using lt by (cases b) (auto simp add: shift_byte_def one zero simp del: bit_or_iff bit_drop_bit_eq)
qed

lemma upt8: "[0..<8] = [0, 1, 2, 3, 4, 5, 6, 7::nat]"
  by (simp add: upt_rec)

lemma lt8_cases: "n < 8 \<Longrightarrow> n \<in> set [0, 1, 2, 3, 4, 5, 6, 7::nat]"
  by simp arith

lemma shift_byte_bits: "foldl (\<lambda>x k. shift_byte k x) x (byte_bits v) = v"
proof (rule bit_word_eqI)
  fix n assume "n < LENGTH(8)"
  then have "n < 8" by simp
  from lt8_cases [OF this]
  show "bit (foldl (\<lambda>x k. shift_byte k x) x (byte_bits v)) n \<longleftrightarrow> bit v n"
    by (auto simp add: byte_bits_def upt8 bit_shift_byte numeral_eq_Suc)
qed

lemma block_cycles_Cons:
  "block_cycles th ok (c # cs) cb = bind_err (cycle_step th ok c cb) (block_cycles th ok cs)"
  by (simp add: bind_err_def)

lemma block_cycles_append:
  "block_cycles th ok (cs @ ds) cb = bind_err (block_cycles th ok cs cb) (block_cycles th ok ds)"
  by (induction cs arbitrary: cb) (simp_all add: bind_err_def split: sum.splits)

lemma shift_bit_byte: "shift_bit k cb = cb\<lparr>b_byte := shift_byte k (b_byte cb)\<rparr>"
  by (cases k) (simp_all add: shift_bit_def shift_byte_def)

lemma cycle_step_collect:
  assumes "b_state cb \<noteq> BS_NEED_SYNCBYTE" "b_state cb \<noteq> BS_DONE" "b_nbit cb \<noteq> 8"
  shows "cycle_step th ok c cb
    = Inr (cb\<lparr>b_byte := shift_byte (classify th c) (b_byte cb), b_nbit := b_nbit cb + 1\<rparr>)"
  using assms by (simp add: cycle_step_def shift_bit_byte process_bit_collect nbit_incr_def)

lemma list8: "length xs = 8 \<Longrightarrow> \<exists>a b c d e f g h. xs = [a, b, c, d, e, f, g, h]"
  by (auto simp: numeral_eq_Suc length_Suc_conv)

lemma shift8:
  "shift_byte (if bit v 7 then One else Zero) (shift_byte (if bit v 6 then One else Zero)
    (shift_byte (if bit v 5 then One else Zero) (shift_byte (if bit v 4 then One else Zero)
    (shift_byte (if bit v 3 then One else Zero) (shift_byte (if bit v 2 then One else Zero)
    (shift_byte (if bit v 1 then One else Zero) (shift_byte (if bit v 0 then One else Zero) x)))))))
   = v"
  using shift_byte_bits [of x v] by (simp add: byte_bits_def upt8)

lemma collect8:
  assumes st: "b_state cb \<noteq> BS_NEED_SYNCBYTE" "b_state cb \<noteq> BS_DONE"
    and nb: "b_nbit cb = 1"
    and cls: "map (classify th) cs = byte_bits v"
  shows "block_cycles th ok (cs @ rest) cb
    = bind_err (process_bit ok (cb\<lparr>b_byte := v, b_nbit := 8\<rparr>)) (block_cycles th ok rest)"
proof -
  from cls have "length cs = 8"
    using length_map [of "classify th" cs] by (simp add: byte_bits_def)
  from list8 [OF this] obtain c0 c1 c2 c3 c4 c5 c6 c7
    where cs: "cs = [c0, c1, c2, c3, c4, c5, c6, c7]" by blast
  from cls have k: "classify th c0 = (if bit v 0 then One else Zero)"
    "classify th c1 = (if bit v 1 then One else Zero)"
    "classify th c2 = (if bit v 2 then One else Zero)"
    "classify th c3 = (if bit v 3 then One else Zero)"
    "classify th c4 = (if bit v 4 then One else Zero)"
    "classify th c5 = (if bit v 5 then One else Zero)"
    "classify th c6 = (if bit v 6 then One else Zero)"
    "classify th c7 = (if bit v 7 then One else Zero)"
    unfolding cs byte_bits_def upt8 by simp_all
  define s7 where "s7 = shift_byte (classify th c6) (shift_byte (classify th c5)
    (shift_byte (classify th c4) (shift_byte (classify th c3) (shift_byte (classify th c2)
    (shift_byte (classify th c1) (shift_byte (classify th c0) (b_byte cb)))))))"
  have v: "shift_byte (classify th c7) s7 = v"
    unfolding s7_def k by (rule shift8)
  have seven: "block_cycles th ok [c0, c1, c2, c3, c4, c5, c6] cb = Inr (cb\<lparr>b_byte := s7, b_nbit := 8\<rparr>)"
    using st nb by (simp add: cycle_step_collect s7_def)
  have "shift_bit (classify th c7) (cb\<lparr>b_byte := s7, b_nbit := 8\<rparr>)
      = cb\<lparr>b_byte := v, b_nbit := 8\<rparr>"
    by (rule block.equality) (simp_all add: shift_bit_byte v)
  then have last: "cycle_step th ok c7 (cb\<lparr>b_byte := s7, b_nbit := 8\<rparr>)
      = process_bit ok (cb\<lparr>b_byte := v, b_nbit := 8\<rparr>)"
    by (simp only: cycle_step_def)
  have "block_cycles th ok (cs @ rest) cb
      = block_cycles th ok ([c0, c1, c2, c3, c4, c5, c6] @ c7 # rest) cb"
    by (simp add: cs)
  also have "\<dots> = bind_err (block_cycles th ok [c0, c1, c2, c3, c4, c5, c6] cb)
      (block_cycles th ok (c7 # rest))"
    by (rule block_cycles_append)
  also have "\<dots> = block_cycles th ok (c7 # rest) (cb\<lparr>b_byte := s7, b_nbit := 8\<rparr>)"
    by (simp only: seven bind_err_simps)
  also have "\<dots> = bind_err (process_bit ok (cb\<lparr>b_byte := v, b_nbit := 8\<rparr>))
      (block_cycles th ok rest)"
    by (simp only: block_cycles_Cons last)
  finally show ?thesis .
qed

lemma frame_bits_simps [simp]:
  "frame_bits [] = []" "frame_bits (b # bs) = byte_bits b @ frame_bits bs"
  "frame_bits (as @ bs) = frame_bits as @ frame_bits bs"
  by (simp_all add: frame_bits_def)

lemma byte_bits_sync:
  "byte_bits SYNCBYTE = [Zero, Zero, One, One, One, One, Zero, Zero]"
  by (simp add: byte_bits_def upt8 SYNCBYTE_def)

lemma cycle_step_sync_miss:
  assumes "b_state cb = BS_NEED_SYNCBYTE" "shift_byte (classify th c) (b_byte cb) \<noteq> SYNCBYTE"
  shows "cycle_step th ok c cb = Inr (cb\<lparr>b_byte := shift_byte (classify th c) (b_byte cb)\<rparr>)"
  using assms by (simp add: cycle_step_def shift_bit_byte process_bit_def)

lemma cycle_step_sync_hit:
  assumes "b_state cb = BS_NEED_SYNCBYTE" "shift_byte (classify th c) (b_byte cb) = SYNCBYTE"
  shows "cycle_step th ok c cb = Inr (cb\<lparr>b_byte := 0, b_nbit := 1, b_state := BS_NEED_BLOCKTYPE\<rparr>)"
  using assms by (simp add: cycle_step_def shift_bit_byte process_bit_def)

lemma sync8:
  assumes st: "b_state cb = BS_NEED_SYNCBYTE"
    and by0: "b_byte cb = 0 \<or> b_byte cb = 0x80"
    and cls: "map (classify th) cs = byte_bits SYNCBYTE"
  shows "block_cycles th ok (cs @ rest) cb
    = block_cycles th ok rest (cb\<lparr>b_byte := 0, b_nbit := 1, b_state := BS_NEED_BLOCKTYPE\<rparr>)"
proof -
  from cls have "length cs = 8"
    using length_map [of "classify th" cs] by (simp add: byte_bits_def)
  from list8 [OF this] obtain c0 c1 c2 c3 c4 c5 c6 c7
    where cs: "cs = [c0, c1, c2, c3, c4, c5, c6, c7]" by blast
  from cls have k: "classify th c0 = Zero" "classify th c1 = Zero" "classify th c2 = One"
    "classify th c3 = One" "classify th c4 = One" "classify th c5 = One"
    "classify th c6 = Zero" "classify th c7 = Zero"
    unfolding cs byte_bits_sync by simp_all
  from by0 show ?thesis
  proof
    assume b: "b_byte cb = 0"
    show ?thesis unfolding cs
      using st b
      by (simp add: block_cycles_Cons cycle_step_sync_miss cycle_step_sync_hit k
          shift_byte_def SYNCBYTE_def)
  next
    assume b: "b_byte cb = 0x80"
    show ?thesis unfolding cs
      using st b
      by (simp add: block_cycles_Cons cycle_step_sync_miss cycle_step_sync_hit k
          shift_byte_def SYNCBYTE_def)
  qed
qed

lemma blocktype_byte:
  assumes "b_state cb = BS_NEED_BLOCKTYPE"
  shows "process_bit ok (cb\<lparr>b_byte := v, b_nbit := 8\<rparr>)
    = (if v = 0x00 \<or> v = 0x01 \<or> v = 0xFF
       then Inr (cb\<lparr>b_state := BS_NEED_LENGTH, b_type := blocktype_of v, b_cksum := v,
                   b_byte := 0, b_nbit := 1\<rparr>)
       else Inr (cb\<lparr>b_state := BS_NEED_SYNCBYTE, b_byte := 0, b_nbit := 1\<rparr>))"
  using assms by (auto simp: process_bit_def nbit_incr_def intro!: block.equality)

lemma length_byte_data:
  assumes "b_state cb = BS_NEED_LENGTH" "b_type cb = BT_DATA"
  shows "process_bit True (cb\<lparr>b_byte := l, b_nbit := 8\<rparr>)
    = Inr (cb\<lparr>b_state := BS_NEED_DATA, b_length := l, b_cksum := b_cksum cb + l,
              b_data := Some (replicate (unat l + 1) 0), b_byte := 0, b_nbit := 1\<rparr>)"
  using assms by (auto simp: process_bit_def nbit_incr_def Let_def intro!: block.equality)

lemma data_byte:
  assumes "b_state cb = BS_NEED_DATA" "b_data cb = Some buf" "unat (b_data_i cb) < length buf"
  shows "process_bit ok (cb\<lparr>b_byte := v, b_nbit := 8\<rparr>)
    = Inr (cb\<lparr>b_state := (if b_length cb = b_data_i cb + 1 then BS_NEED_CKSUM else BS_NEED_DATA),
              b_cksum := b_cksum cb + v, b_data := Some (buf[unat (b_data_i cb) := v]),
              b_byte := 0, b_nbit := 1, b_data_i := b_data_i cb + 1\<rparr>)"
  using assms by (auto simp: process_bit_def nbit_incr_def Let_def store_def intro!: block.equality)

lemma cksum_byte:
  assumes "b_state cb = BS_NEED_CKSUM"
  shows "process_bit ok (cb\<lparr>b_byte := c, b_nbit := 8\<rparr>)
    = (if c \<noteq> b_cksum cb then Inl Err_Cksum
       else Inr (cb\<lparr>b_state := BS_NEED_LEADBYTE, b_byte := 0, b_nbit := 1\<rparr>))"
  using assms by (auto simp: process_bit_def nbit_incr_def intro!: block.equality)

lemma lead_byte:
  assumes "b_state cb = BS_NEED_LEADBYTE"
  shows "process_bit ok (cb\<lparr>b_byte := v, b_nbit := 8\<rparr>)
    = Inr (cb\<lparr>b_state := BS_DONE, b_byte := 0, b_nbit := 1\<rparr>)"
  using assms by (auto simp: process_bit_def nbit_incr_def intro!: block.equality)

lemma map_eq_appendD:
  "map f cs = a @ b \<Longrightarrow> \<exists>c1 c2. cs = c1 @ c2 \<and> map f c1 = a \<and> map f c2 = b"
  by (auto simp: map_eq_append_conv)

lemma unat_succ: "unat (x :: u8) < 255 \<Longrightarrow> unat (x + 1) = unat x + 1"
  by (simp add: unat_word_ariths)

lemma data_phase:
  assumes "b_state cb = BS_NEED_DATA" "b_nbit cb = 1"
    and "b_data cb = Some (done @ replicate (Suc (length vs)) 0)"
    and "unat (b_data_i cb) = length done"
    and "unat (b_length cb) = length done + length vs"
    and "vs \<noteq> []"
    and "map (classify th) cs = frame_bits vs"
  shows "block_cycles th ok (cs @ rest) cb
    = block_cycles th ok rest
        (cb\<lparr>b_state := BS_NEED_CKSUM, b_cksum := b_cksum cb + sum_list vs,
            b_data := Some (done @ vs @ [0]), b_byte := 0, b_nbit := 1,
            b_data_i := b_length cb\<rparr>)"
  using assms
proof (induction vs arbitrary: cb "done" cs)
  case Nil
  then show ?case by simp
next
  case (Cons v vs')
  from Cons.prems(7) have "map (classify th) cs = byte_bits v @ frame_bits vs'" by simp
  from map_eq_appendD [OF this] obtain c8 cs' where cs: "cs = c8 @ cs'"
    and c8: "map (classify th) c8 = byte_bits v"
    and cs': "map (classify th) cs' = frame_bits vs'" by blast
  have lt: "length done + length (v # vs') < 256"
    using Cons.prems(5) unsigned_less [of "b_length cb", where ?'a = nat] by simp
  have inb: "unat (b_data_i cb) < length (done @ replicate (Suc (length (v # vs'))) 0)"
    using Cons.prems(4) by simp
  have di: "unat (b_data_i cb + 1) = length done + 1"
    using unat_succ [of "b_data_i cb"] Cons.prems(4) lt by simp
  have buf: "(done @ replicate (Suc (length (v # vs'))) 0)[unat (b_data_i cb) := v]
      = (done @ [v]) @ replicate (Suc (length vs')) 0"
    using Cons.prems(4) by (simp add: list_update_append)
  define cb1 where "cb1 = cb\<lparr>b_state := (if b_length cb = b_data_i cb + 1 then BS_NEED_CKSUM else BS_NEED_DATA),
              b_cksum := b_cksum cb + v, b_data := Some ((done @ [v]) @ replicate (Suc (length vs')) 0),
              b_byte := 0, b_nbit := 1, b_data_i := b_data_i cb + 1\<rparr>"
  have db: "process_bit ok (cb\<lparr>b_byte := v, b_nbit := 8\<rparr>) = Inr cb1"
    unfolding cb1_def buf [symmetric]
    by (rule data_byte [OF Cons.prems(1) Cons.prems(3) inb])
  have st: "b_state cb \<noteq> BS_NEED_SYNCBYTE" "b_state cb \<noteq> BS_DONE"
    using Cons.prems(1) by simp_all
  have step: "block_cycles th ok (cs @ rest) cb = block_cycles th ok (cs' @ rest) cb1"
    unfolding cs append_assoc
    by (simp only: collect8 [OF st Cons.prems(2) c8] db bind_err_simps)
  show ?case
  proof (cases "vs' = []")
    case True
    then have "cs' = []" using cs' by simp
    have "unat (b_length cb) = unat (b_data_i cb + 1)"
      using Cons.prems(5) di True by simp
    then have eq: "b_length cb = b_data_i cb + 1" by (simp only: word_unat_eq_iff)
    have "cb1 = cb\<lparr>b_state := BS_NEED_CKSUM, b_cksum := b_cksum cb + sum_list (v # vs'),
            b_data := Some (done @ (v # vs') @ [0]), b_byte := 0, b_nbit := 1,
            b_data_i := b_length cb\<rparr>"
      unfolding cb1_def using True eq by (auto intro!: block.equality)
    with step \<open>cs' = []\<close> show ?thesis by simp
  next
    case False
    have "unat (b_length cb) \<noteq> unat (b_data_i cb + 1)"
      using Cons.prems(5) di False by simp
    then have ne: "b_length cb \<noteq> b_data_i cb + 1" by auto
    have st1: "b_state cb1 = BS_NEED_DATA" using ne by (simp add: cb1_def)
    have ih: "block_cycles th ok (cs' @ rest) cb1
      = block_cycles th ok rest
        (cb1\<lparr>b_state := BS_NEED_CKSUM, b_cksum := b_cksum cb1 + sum_list vs',
            b_data := Some ((done @ [v]) @ vs' @ [0]), b_byte := 0, b_nbit := 1,
            b_data_i := b_length cb1\<rparr>)"
      using Cons.IH [of cb1 "done @ [v]" cs'] st1 False cs' di Cons.prems(5)
      by (simp add: cb1_def)
    have "cb1\<lparr>b_state := BS_NEED_CKSUM, b_cksum := b_cksum cb1 + sum_list vs',
            b_data := Some ((done @ [v]) @ vs' @ [0]), b_byte := 0, b_nbit := 1,
            b_data_i := b_length cb1\<rparr>
       = cb\<lparr>b_state := BS_NEED_CKSUM, b_cksum := b_cksum cb + sum_list (v # vs'),
            b_data := Some (done @ (v # vs') @ [0]), b_byte := 0, b_nbit := 1,
            b_data_i := b_length cb\<rparr>"
      unfolding cb1_def by (auto intro!: block.equality simp: add.assoc)
    with step ih show ?thesis by simp
  qed
qed

section \<open>The decode loop as a run of falling crossings\<close>

lemma crossings_Cons:
  "crossings th (c # cs) d = bind_err (crossing th c d) (crossings th cs)"
  by (simp add: bind_err_def)

lemma crossings_append:
  "crossings th (cs @ ds) d = bind_err (crossings th cs d) (crossings th ds)"
  by (induction cs arbitrary: d) (simp_all add: bind_err_def split: sum.splits)

lemma falling_0_m1: "falling 0 (- 1)"
  by (simp add: falling_def)

lemma crossing_eq:
  "crossing th c d
    = bind_err (cycle_step th True c (cur d)) (\<lambda>cb'.
        bind_err (block_done (settle d) cb') (\<lambda>d2. Inr (d2\<lparr>d_count := 1\<rparr>)))"
  by (cases "d_cb d")
    (simp_all add: crossing_def sample_step_def need_block_def falling_crossing_def cur_def
      settle_def block_done_def bind_err_def falling_0_m1 split: sum.splits)

lemma crossing_close:
  "crossing th c d = bind_err (cycle_step th True c (cur d)) (close_block d)"
  by (simp add: crossing_eq close_block_def [abs_def])

lemma cycle_step_done: "b_state cb = BS_DONE \<Longrightarrow> cycle_step th ok c cb = Inl Err_BadState"
  by (simp add: cycle_step_def shift_bit_byte process_bit_def)

lemma close_block_open:
  "b_state cb \<noteq> BS_DONE \<Longrightarrow> close_block d cb = Inr ((settle d)\<lparr>d_count := 1, d_cb := Some cb\<rparr>)"
  by (simp add: close_block_def block_done_def)

lemma block_done_same:
  assumes "d_blocks d1 = d_blocks d2" "d_out d1 = d_out d2" "d_nblocks d1 = d_nblocks d2"
  shows "block_done d1 cb = block_done d2 cb"
proof -
  have eq: "\<And>bs out. d1\<lparr>d_count := 0, d_blocks := bs, d_cb := None, d_out := out\<rparr>
      = d2\<lparr>d_count := 0, d_blocks := bs, d_cb := None, d_out := out\<rparr>"
    using assms by (intro decoder.equality) simp_all
  have eq2: "\<And>bs. d1\<lparr>d_count := 0, d_blocks := bs, d_cb := None\<rparr>
      = d2\<lparr>d_count := 0, d_blocks := bs, d_cb := None\<rparr>"
    using assms by (intro decoder.equality) simp_all
  have eq3: "\<And>c. d1\<lparr>d_count := 0, d_cb := c\<rparr> = d2\<lparr>d_count := 0, d_cb := c\<rparr>"
    using assms by (intro decoder.equality) simp_all
  show ?thesis
    unfolding block_done_def using assms(1,2) by (simp only: eq eq2 eq3)
qed

lemma close_block_same:
  assumes "d_blocks d1 = d_blocks d2" "d_out d1 = d_out d2"
    "d_nblocks (settle d1) = d_nblocks (settle d2)"
  shows "close_block d1 cb = close_block d2 cb"
proof -
  have "block_done (settle d1) cb = block_done (settle d2) cb"
    using assms by (intro block_done_same) (auto simp: settle_def split: option.splits)
  then show ?thesis by (simp only: close_block_def)
qed

lemma close_block_settle:
  "close_block ((settle d)\<lparr>d_count := n, d_cb := Some cb\<rparr>) cb' = close_block d cb'"
  by (rule close_block_same) (auto simp: settle_def split: option.splits)

lemma cur_open: "cur (d\<lparr>d_count := n, d_cb := Some cb\<rparr>) = cb"
  by (simp add: cur_def)

lemma crossings_block:
  assumes "cs \<noteq> []" "block_cycles th True cs (cur d) \<noteq> Inl Err_BadState"
  shows "crossings th cs d = bind_err (block_cycles th True cs (cur d)) (close_block d)"
  using assms
proof (induction cs arbitrary: d)
  case Nil
  then show ?case by simp
next
  case (Cons c cs)
  show ?case
  proof (cases "cycle_step th True c (cur d)")
    case (Inl e)
    then show ?thesis by (simp add: crossing_close)
  next
    case (Inr cb1)
    show ?thesis
    proof (cases "cs = []")
      case True
      with Inr show ?thesis by (cases "close_block d cb1") (simp_all add: crossing_close)
    next
      case False
      have nd: "b_state cb1 \<noteq> BS_DONE"
      proof
        assume "b_state cb1 = BS_DONE"
        moreover obtain c' cs' where "cs = c' # cs'" using False by (cases cs) auto
        ultimately have "block_cycles th True (c # cs) (cur d) = Inl Err_BadState"
          using Inr by (simp add: cycle_step_done)
        with Cons.prems(2) show False by simp
      qed
      let ?d1 = "(settle d)\<lparr>d_count := 1, d_cb := Some cb1\<rparr>"
      have c1: "crossing th c d = Inr ?d1"
        using Inr nd by (simp add: crossing_close close_block_open)
      have "block_cycles th True cs (cur ?d1) \<noteq> Inl Err_BadState"
        using Cons.prems(2) Inr by (simp add: cur_open)
      from Cons.IH [OF False this]
      have "crossings th cs ?d1 = bind_err (block_cycles th True cs cb1) (close_block ?d1)"
        by (simp only: cur_open)
      then have "crossings th cs ?d1 = bind_err (block_cycles th True cs cb1) (close_block d)"
        using close_block_settle [where d = d and n = 1 and cb = cb1]
        by (simp add: bind_err_def split: sum.splits)
      then show ?thesis using c1 Inr by simp
    qed
  qed
qed

lemma cur_settle: "cur (settle d) = cur d"
  by (cases "d_cb d") (simp_all add: cur_def settle_def)

lemma settle_idem: "settle (settle d) = settle d"
  by (cases "d_cb d") (simp_all add: settle_def)

lemma crossing_settle: "crossing th c (settle d) = crossing th c d"
  by (simp add: crossing_close cur_settle close_block_def [abs_def] settle_idem)

lemma crossing_same: "settle d1 = settle d2 \<Longrightarrow> crossing th c d1 = crossing th c d2"
  using crossing_settle [of th c d1] crossing_settle [of th c d2] by simp

lemma settled_simps [simp]: "settled (Inl e) = Inl e" "settled (Inr d) = Inr (settle d)"
  by (simp_all add: settled_def)

lemma crossings_same:
  assumes "settle d1 = settle d2"
  shows "settled (crossings th cs d1) = settled (crossings th cs d2)"
proof (cases cs)
  case Nil
  then show ?thesis using assms by simp
next
  case (Cons c cs')
  have "crossing th c d1 = crossing th c d2" by (rule crossing_same [OF assms])
  then show ?thesis unfolding Cons by simp
qed

lemma crossing_count: "crossing th c d = Inr d' \<Longrightarrow> d_count d' = 1"
  by (auto simp: crossing_close close_block_def bind_err_Inr)

lemma sample_step_crossing:
  assumes "falling prev x"
  shows "sample_step th True prev x d = crossing th (d_count d) d"
  using assms by (simp add: crossing_def sample_step_def falling_0_m1)

lemma sample_step_idle:
  assumes "\<not> falling prev x"
  shows "\<exists>d'. sample_step th True prev x d = Inr d' \<and> settle d' = settle d
            \<and> d_count d' = d_count d + 1"
  using assms by (cases "d_cb d") (simp_all add: sample_step_def need_block_def settle_def)

lemma decode_loop_crossings:
  assumes "\<forall>j. mem j"
  shows "settled (decode_loop th mem j prev xs d)
    = settled (crossings th (cycle_counts (d_count d) prev xs) d)"
proof (induction xs arbitrary: j prev d)
  case Nil
  show ?case by simp
next
  case (Cons x xs)
  have m: "mem j = True" using assms by simp
  show ?case
  proof (cases "falling prev x")
    case True
    have cc: "cycle_counts (d_count d) prev (x # xs) = d_count d # cycle_counts 1 x xs"
      using True by simp
    have ss: "sample_step th (mem j) prev x d = crossing th (d_count d) d"
      unfolding m by (rule sample_step_crossing [OF True])
    show ?thesis
    proof (cases "crossing th (d_count d) d")
      case (Inl e)
      then show ?thesis unfolding cc by (simp add: ss)
    next
      case (Inr d')
      have "settled (decode_loop th mem (Suc j) x xs d')
          = settled (crossings th (cycle_counts (d_count d') x xs) d')"
        by (rule Cons.IH)
      then show ?thesis unfolding cc using Inr crossing_count [OF Inr] by (simp add: ss)
    qed
  next
    case False
    from sample_step_idle [OF False, of th d] obtain d'
      where s: "sample_step th True prev x d = Inr d'" and e: "settle d' = settle d"
        and c: "d_count d' = d_count d + 1" by blast
    have cc: "cycle_counts (d_count d) prev (x # xs) = cycle_counts (d_count d') x xs"
      using False c by simp
    have "settled (decode_loop th mem j prev (x # xs) d)
        = settled (decode_loop th mem (Suc j) x xs d')"
      by (simp add: m s)
    also have "\<dots> = settled (crossings th (cycle_counts (d_count d') x xs) d')"
      by (rule Cons.IH)
    also have "\<dots> = settled (crossings th (cycle_counts (d_count d') x xs) d)"
      by (rule crossings_same [OF e])
    finally show ?thesis unfolding cc .
  qed
qed

lemma decode_crossings:
  assumes "\<forall>j. mem j"
  shows "settled (decode th mem samples)
    = settled (crossings th (measured_cycles samples) init_decoder)"
proof (cases samples)
  case Nil
  then show ?thesis by (simp add: decode_def measured_cycles_def)
next
  case (Cons x xs)
  have "d_count init_decoder = 0" by (simp add: init_decoder_def)
  with decode_loop_crossings [OF assms, of th 1 x xs init_decoder]
  show ?thesis unfolding Cons by (simp add: decode_def measured_cycles_def)
qed

section \<open>Frames\<close>

lemma feed_bytes_cycles:
  assumes "collects ok vs cb" "map (classify th) cs = frame_bits vs"
  shows "block_cycles th ok (cs @ rest) cb = bind_err (feed_bytes ok vs cb) (block_cycles th ok rest)"
  using assms
proof (induction vs arbitrary: cb cs)
  case Nil
  then show ?case by simp
next
  case (Cons v vs)
  from Cons.prems(2) have "map (classify th) cs = byte_bits v @ frame_bits vs" by simp
  from map_eq_appendD [OF this] obtain c8 cs' where cs: "cs = c8 @ cs'"
    and c8: "map (classify th) c8 = byte_bits v"
    and cs': "map (classify th) cs' = frame_bits vs" by blast
  from Cons.prems(1) have st: "b_state cb \<noteq> BS_NEED_SYNCBYTE" "b_state cb \<noteq> BS_DONE"
    and nb: "b_nbit cb = 1" by simp_all
  have step: "block_cycles th ok (cs @ rest) cb
      = bind_err (process_bit ok (cb\<lparr>b_byte := v, b_nbit := 8\<rparr>)) (block_cycles th ok (cs' @ rest))"
    unfolding cs append_assoc by (rule collect8 [OF st nb c8])
  show ?case
  proof (cases "process_bit ok (cb\<lparr>b_byte := v, b_nbit := 8\<rparr>)")
    case (Inl e)
    then show ?thesis using step by simp
  next
    case (Inr cb1)
    with Cons.prems(1) have "collects ok vs cb1" by simp
    from Cons.IH [OF this cs'] Inr step show ?thesis by simp
  qed
qed

lemmas feed_eval = blocktype_byte length_byte_data data_byte cksum_byte lead_byte

lemma cksum_stage:
  assumes "b_state cb = BS_NEED_CKSUM" "b_nbit cb = 1" "map (classify th) cs = byte_bits c"
  shows "block_cycles th ok (cs @ rest) cb
    = (if c \<noteq> b_cksum cb then Inl Err_Cksum
       else block_cycles th ok rest (cb\<lparr>b_state := BS_NEED_LEADBYTE, b_byte := 0, b_nbit := 1\<rparr>))"
  using collect8 [OF _ _ assms(2,3), of ok rest] assms(1)
  by (simp add: cksum_byte)

lemma lead_stage:
  assumes "b_state cb = BS_NEED_LEADBYTE" "b_nbit cb = 1" "map (classify th) cs = byte_bits v"
  shows "block_cycles th ok (cs @ rest) cb
    = block_cycles th ok rest (cb\<lparr>b_state := BS_DONE, b_byte := 0, b_nbit := 1\<rparr>)"
  using collect8 [OF _ _ assms(2,3), of ok rest] assms(1)
  by (simp add: lead_byte)

lemma data_body:
  assumes aw: "awaiting_type cb" and l: "l \<noteq> 0" "length payload = unat l"
    and cls: "map (classify th) cs = frame_bits (0x01 # l # payload)"
  shows "block_cycles th True (cs @ rest) cb
    = block_cycles th True rest
        (cb\<lparr>b_state := BS_NEED_CKSUM, b_type := BT_DATA, b_length := l,
            b_cksum := 1 + l + sum_list payload, b_data := Some (payload @ [0]),
            b_byte := 0, b_nbit := 1, b_data_i := l\<rparr>)"
proof -
  from cls have "map (classify th) cs = byte_bits 0x01 @ (byte_bits l @ frame_bits payload)"
    by simp
  from map_eq_appendD [OF this] obtain ct cr where cs0: "cs = ct @ cr"
    and ct: "map (classify th) ct = byte_bits 0x01"
    and cr: "map (classify th) cr = byte_bits l @ frame_bits payload" by blast
  from map_eq_appendD [OF cr] obtain cl cp where cr0: "cr = cl @ cp"
    and cl: "map (classify th) cl = byte_bits l"
    and cp: "map (classify th) cp = frame_bits payload" by blast
  have cs: "cs = ct @ cl @ cp" by (simp add: cs0 cr0)
  from aw have st: "b_state cb = BS_NEED_BLOCKTYPE" and nb: "b_nbit cb = 1"
    and di: "b_data_i cb = 0" by (simp_all add: awaiting_type_def)
  define cb1 where "cb1 = cb\<lparr>b_state := BS_NEED_LENGTH, b_type := blocktype_of 1, b_cksum := 1,
                   b_byte := 0, b_nbit := 1\<rparr>"
  define cb2 where "cb2 = cb1\<lparr>b_state := BS_NEED_DATA, b_length := l, b_cksum := b_cksum cb1 + l,
              b_data := Some (replicate (unat l + 1) 0), b_byte := 0, b_nbit := 1\<rparr>"
  have s1: "block_cycles th True (cs @ rest) cb = block_cycles th True (cl @ cp @ rest) cb1"
    unfolding cs append_assoc
    using collect8 [OF _ _ nb ct, of True "cl @ cp @ rest"] st
    by (simp add: blocktype_byte [OF st] cb1_def)
  have st1: "b_state cb1 = BS_NEED_LENGTH" "b_nbit cb1 = 1" "b_type cb1 = BT_DATA"
    by (simp_all add: cb1_def blocktype_of_def)
  have s2: "block_cycles th True (cl @ cp @ rest) cb1 = block_cycles th True (cp @ rest) cb2"
    using collect8 [OF _ _ st1(2) cl, of True "cp @ rest"] st1(1)
    by (simp add: length_byte_data [OF st1(1) st1(3)] cb2_def)
  have pne: "payload \<noteq> []" using l by (auto simp: unat_eq_0)
  have s3: "block_cycles th True (cp @ rest) cb2
    = block_cycles th True rest
        (cb2\<lparr>b_state := BS_NEED_CKSUM, b_cksum := b_cksum cb2 + sum_list payload,
            b_data := Some ([] @ payload @ [0]), b_byte := 0, b_nbit := 1,
            b_data_i := b_length cb2\<rparr>)"
    by (rule data_phase) (simp_all add: cb2_def cb1_def di l pne cp)
  have "cb2\<lparr>b_state := BS_NEED_CKSUM, b_cksum := b_cksum cb2 + sum_list payload,
            b_data := Some ([] @ payload @ [0]), b_byte := 0, b_nbit := 1,
            b_data_i := b_length cb2\<rparr>
     = cb\<lparr>b_state := BS_NEED_CKSUM, b_type := BT_DATA, b_length := l,
            b_cksum := 1 + l + sum_list payload, b_data := Some (payload @ [0]),
            b_byte := 0, b_nbit := 1, b_data_i := l\<rparr>"
    by (rule block.equality) (simp_all add: cb2_def cb1_def blocktype_of_def)
  with s1 s2 s3 show ?thesis by simp
qed






section \<open>Synthetic tapes\<close>

lemma classify_bit_cycle:
  "k \<noteq> Invalid \<Longrightarrow> classify default_thresholds (bit_cycle k) = k"
  by (cases k)
    (simp_all add: bit_cycle_def classify_def default_thresholds_def OL_def OH_def ZL_def ZH_def)

lemma byte_bits_valid: "Invalid \<notin> set (byte_bits v)"
  by (auto simp: byte_bits_def)

lemma frame_bits_valid: "k \<in> set (frame_bits bs) \<Longrightarrow> k \<noteq> Invalid"
  by (auto simp: frame_bits_def byte_bits_valid)

lemma classify_tape: "map (classify default_thresholds) (tape_cycles bs) = frame_bits bs"
  unfolding tape_cycles_def map_map
  by (rule map_idI) (simp add: classify_bit_cycle frame_bits_valid)

lemma tape_cycles_append: "tape_cycles (as @ bs) = tape_cycles as @ tape_cycles bs"
  by (simp add: tape_cycles_def)

lemma tape_cycles_ge: "c \<in> set (tape_cycles bs) \<Longrightarrow> 2 \<le> c"
  by (auto simp: tape_cycles_def bit_cycle_def dest!: frame_bits_valid split: bitclass.splits)

lemma cycle_counts_neg:
  "cycle_counts n p (replicate a (- 1) @ rest) = cycle_counts (n + int a) (if a = 0 then p else - 1) rest"
  if "sint p < 0"
  using that by (induction a arbitrary: n p) (simp_all add: falling_def add.assoc)

lemma cycle_counts_pos:
  "cycle_counts n p (replicate a 1 @ rest) = cycle_counts (n + int a) (if a = 0 then p else 1) rest"
  by (induction a arbitrary: n p) (simp_all add: falling_def add.assoc)

lemma cycle_counts_wave:
  assumes "sint p \<ge> 0" "\<forall>c\<in>set cs. 2 \<le> c"
  shows "cycle_counts n p (concat (map cycle_wave cs) @ [- 1]) = n # cs"
  using assms
proof (induction cs arbitrary: n p)
  case Nil
  then show ?case by (simp add: falling_def)
next
  case (Cons c cs)
  from Cons.prems(2) have c2: "2 \<le> c" by simp
  define h where "h = nat c div 2"
  define m where "m = nat c - nat c div 2"
  have h1: "h \<ge> 1" and m1: "m \<ge> 1" and hm: "int h + int m = c"
    using c2 unfolding h_def m_def by linarith+
  obtain h' where h': "h = Suc h'" using h1 by (cases h) auto
  let ?rest = "concat (map cycle_wave cs) @ [- 1]"
  have cw: "cycle_wave c = (- 1) # replicate h' (- 1) @ replicate m 1"
  proof -
    have "cycle_wave c = replicate h (- 1) @ replicate m 1"
      by (simp add: cycle_wave_def h_def m_def)
    then show ?thesis by (simp add: h')
  qed
  have "cycle_counts n p (concat (map cycle_wave (c # cs)) @ [- 1])
      = cycle_counts n p ((- 1) # replicate h' (- 1) @ replicate m 1 @ ?rest)"
    by (simp add: cw)
  also have "\<dots> = n # cycle_counts 1 (- 1) (replicate h' (- 1) @ replicate m 1 @ ?rest)"
    using Cons.prems(1) by (simp add: falling_def del: replicate.simps)
  also have "cycle_counts 1 (- 1) (replicate h' (- 1) @ replicate m 1 @ ?rest)
      = cycle_counts (1 + int h') (- 1) (replicate m 1 @ ?rest)"
    by (subst cycle_counts_neg) simp_all
  also have "\<dots> = cycle_counts (1 + int h' + int m) 1 ?rest"
    using m1 by (subst cycle_counts_pos) simp
  also have "1 + int h' + int m = c" using hm h' by simp
  also have "cycle_counts c 1 ?rest = c # cs"
    using Cons.IH [of 1 c] Cons.prems(2) by simp
  finally show ?case .
qed

lemma measured_wave:
  assumes "\<forall>c\<in>set cs. 2 \<le> c"
  shows "measured_cycles (wave_of cs) = 0 # cs"
  using cycle_counts_wave [OF _ assms, of 1 0] by (simp add: measured_cycles_def wave_of_def)

lemma awaiting_type_synced:
  "awaiting_type (new_block\<lparr>b_byte := w\<rparr>\<lparr>b_byte := 0, b_nbit := 1, b_state := BS_NEED_BLOCKTYPE\<rparr>)"
  by (simp add: awaiting_type_def new_block_def)

lemma data_frame_block:
  assumes w: "w = 0 \<or> w = 0x80" and l: "l \<noteq> 0" "length payload = unat l"
    and cls: "map (classify th) cs
      = frame_bits (SYNCBYTE # 0x01 # l # payload @ [1 + l + sum_list payload, lead])"
  shows "block_cycles th True (cs @ rest) (new_block\<lparr>b_byte := w\<rparr>)
    = block_cycles th True rest (data_block payload)"
proof -
  from cls have "map (classify th) cs = byte_bits SYNCBYTE
      @ (frame_bits (0x01 # l # payload) @ (byte_bits (1 + l + sum_list payload) @ byte_bits lead))"
    by simp
  from map_eq_appendD [OF this] obtain c1 r1 where cs1: "cs = c1 @ r1"
    and c1: "map (classify th) c1 = byte_bits SYNCBYTE"
    and r1: "map (classify th) r1
      = frame_bits (0x01 # l # payload) @ (byte_bits (1 + l + sum_list payload) @ byte_bits lead)"
    by blast
  from map_eq_appendD [OF r1] obtain c2 r2 where cs2: "r1 = c2 @ r2"
    and c2: "map (classify th) c2 = frame_bits (0x01 # l # payload)"
    and r2: "map (classify th) r2 = byte_bits (1 + l + sum_list payload) @ byte_bits lead"
    by blast
  from map_eq_appendD [OF r2] obtain c3 c4 where cs3: "r2 = c3 @ c4"
    and c3: "map (classify th) c3 = byte_bits (1 + l + sum_list payload)"
    and c4: "map (classify th) c4 = byte_bits lead"
    by blast
  let ?b0 = "new_block\<lparr>b_byte := w\<rparr>"
  let ?b1 = "?b0\<lparr>b_byte := 0, b_nbit := 1, b_state := BS_NEED_BLOCKTYPE\<rparr>"
  let ?b2 = "?b1\<lparr>b_state := BS_NEED_CKSUM, b_type := BT_DATA, b_length := l,
            b_cksum := 1 + l + sum_list payload, b_data := Some (payload @ [0]),
            b_byte := 0, b_nbit := 1, b_data_i := l\<rparr>"
  let ?b3 = "?b2\<lparr>b_state := BS_NEED_LEADBYTE, b_byte := 0, b_nbit := 1\<rparr>"
  let ?b4 = "?b3\<lparr>b_state := BS_DONE, b_byte := 0, b_nbit := 1\<rparr>"
  have s1: "block_cycles th True (c1 @ c2 @ c3 @ c4 @ rest) ?b0
      = block_cycles th True (c2 @ c3 @ c4 @ rest) ?b1"
    by (rule sync8 [OF _ _ c1]) (use w in \<open>simp_all add: new_block_def\<close>)
  have s2: "block_cycles th True (c2 @ c3 @ c4 @ rest) ?b1
      = block_cycles th True (c3 @ c4 @ rest) ?b2"
    by (rule data_body [OF awaiting_type_synced l c2])
  have s3: "block_cycles th True (c3 @ c4 @ rest) ?b2 = block_cycles th True (c4 @ rest) ?b3"
    using cksum_stage [OF _ _ c3, of ?b2 True "c4 @ rest"] by simp
  have s4: "block_cycles th True (c4 @ rest) ?b3 = block_cycles th True rest ?b4"
    using lead_stage [OF _ _ c4, of ?b3 True rest] by simp
  have "of_nat (length payload) = l" using l(2) by simp
  then have "?b4 = data_block payload"
    by (intro block.equality) (simp_all add: data_block_def new_block_def)
  with s1 s2 s3 s4 show ?thesis by (simp add: cs1 cs2 cs3)
qed

lemma close_block_data:
  "close_block d (data_block payload)
    = Inr ((settle d)\<lparr>d_count := 1, d_blocks := d_blocks d @ [data_block payload], d_cb := None\<rparr>)"
  by (cases "d_cb d")
    (simp_all add: close_block_def block_done_def data_block_def settle_def)

lemma data_frame_crossings:
  assumes cu: "cur d = new_block\<lparr>b_byte := w\<rparr>" and w: "w = 0 \<or> w = 0x80"
    and l: "l \<noteq> 0" "length payload = unat l"
    and cls: "map (classify th) cs
      = frame_bits (SYNCBYTE # 0x01 # l # payload @ [1 + l + sum_list payload, lead])"
  shows "crossings th cs d
    = Inr ((settle d)\<lparr>d_count := 1, d_blocks := d_blocks d @ [data_block payload], d_cb := None\<rparr>)"
proof -
  have b: "block_cycles th True cs (cur d) = Inr (data_block payload)"
    using data_frame_block [OF w l cls, of "[]"] by (simp add: cu)
  have "cs \<noteq> []" using cls by (auto simp: byte_bits_def)
  from crossings_block [OF this, of th d] b show ?thesis
    by (simp add: close_block_data)
qed

section \<open>Round trip of a Data frame\<close>

lemma settle_fields [simp]:
  "d_blocks (settle d) = d_blocks d" "d_out (settle d) = d_out d" "d_cb (settle d) = Some (cur d)"
  by (cases "d_cb d"; simp add: settle_def cur_def)+

lemma settle_eqD:
  assumes "settle d = settle d'"
  shows "d_blocks d = d_blocks d'" "d_out d = d_out d'" "cur d = cur d'"
proof -
  from assms have "d_blocks (settle d) = d_blocks (settle d')"
    "d_out (settle d) = d_out (settle d')" "d_cb (settle d) = d_cb (settle d')" by simp_all
  then show "d_blocks d = d_blocks d'" "d_out d = d_out d'" "cur d = cur d'" by simp_all
qed

lemma cur_new_block: "cur d = new_block \<Longrightarrow> d_cb d = None \<or> d_cb d = Some new_block"
  by (cases "d_cb d") (simp_all add: cur_def)

lemma settledD: "settled r = Inr d' \<Longrightarrow> \<exists>d. r = Inr d \<and> settle d = d'"
  by (cases r) simp_all


lemma first_crossing:
  "\<exists>w. (w = 0 \<or> w = 0x80)
     \<and> crossing th c0 init_decoder
        = Inr ((settle init_decoder)\<lparr>d_count := 1, d_cb := Some (new_block\<lparr>b_byte := w\<rparr>)\<rparr>)"
proof -
  let ?w = "shift_byte (classify th c0) 0"
  have w: "?w = 0 \<or> ?w = 0x80" by (cases "classify th c0") (simp_all add: shift_byte_def)
  then have "?w \<noteq> SYNCBYTE" by (auto simp: SYNCBYTE_def)
  then have "cycle_step th True c0 new_block = Inr (new_block\<lparr>b_byte := ?w\<rparr>)"
    using cycle_step_sync_miss [of new_block th c0 True] by (simp add: new_block_def)
  then have "crossing th c0 init_decoder
        = Inr ((settle init_decoder)\<lparr>d_count := 1, d_cb := Some (new_block\<lparr>b_byte := ?w\<rparr>)\<rparr>)"
    by (simp add: crossing_close cur_def init_decoder_def close_block_open new_block_def)
  with w show ?thesis by blast
qed

text \<open>
  Claim C1. For every sample sequence whose measured cycles, after the first falling
  crossing, are classified as the bits of the bytes sync \<open>0x3C\<close>, type \<open>0x01\<close>, length
  \<open>0x03\<close>, payload \<open>{0x1E, 0x00, 0x41}\<close>, checksum \<open>0x63\<close> and lead byte \<open>0x55\<close>, and
  with every allocation succeeding, the decode loop ends normally with exactly one
  completed block in the chain: it is done, its type is Data and its payload is
  \<open>{0x1E, 0x00, 0x41}\<close>. Nothing has been printed, and the block under construction, if
  one was allocated after the frame, is still untouched.
\<close>

theorem data_frame_round_trip:
  assumes mem: "\<forall>j. mem j"
    and cyc: "measured_cycles samples = c0 # cs"
    and cls: "map (classify th) cs
      = frame_bits [0x3C, 0x01, 0x03, 0x1E, 0x00, 0x41, 0x63, 0x55]"
  shows "\<exists>d. decode th mem samples = Inr d
     \<and> d_blocks d = [data_block [0x1E, 0x00, 0x41]]
     \<and> (d_cb d = None \<or> d_cb d = Some new_block)
     \<and> d_out d = []
     \<and> b_state (data_block [0x1E, 0x00, 0x41]) = BS_DONE
     \<and> b_type (data_block [0x1E, 0x00, 0x41]) = BT_DATA
     \<and> b_length (data_block [0x1E, 0x00, 0x41]) = 3
     \<and> b_data (data_block [0x1E, 0x00, 0x41]) = Some [0x1E, 0x00, 0x41, 0x00]"
proof -
  from first_crossing [of th c0] obtain w where w: "w = 0 \<or> w = 0x80"
    and c0: "crossing th c0 init_decoder
        = Inr ((settle init_decoder)\<lparr>d_count := 1, d_cb := Some (new_block\<lparr>b_byte := w\<rparr>)\<rparr>)"
    by blast
  let ?d0 = "(settle init_decoder)\<lparr>d_count := 1, d_cb := Some (new_block\<lparr>b_byte := w\<rparr>)\<rparr>"
  let ?p = "[0x1E, 0x00, 0x41] :: u8 list"
  have cls': "map (classify th) cs
      = frame_bits (SYNCBYTE # 0x01 # 3 # ?p @ [1 + 3 + sum_list ?p, 0x55])"
    using cls by (simp add: SYNCBYTE_def)
  have "crossings th cs ?d0
      = Inr ((settle ?d0)\<lparr>d_count := 1, d_blocks := d_blocks ?d0 @ [data_block ?p], d_cb := None\<rparr>)"
    by (rule data_frame_crossings [OF _ w _ _ cls']) (simp_all add: cur_def)
  then have run: "crossings th (c0 # cs) init_decoder
      = Inr ((settle ?d0)\<lparr>d_count := 1, d_blocks := d_blocks ?d0 @ [data_block ?p], d_cb := None\<rparr>)"
    by (simp add: c0)
  let ?dF = "(settle ?d0)\<lparr>d_count := 1, d_blocks := d_blocks ?d0 @ [data_block ?p], d_cb := None\<rparr>"
  from decode_crossings [OF mem, of th samples]
  have "settled (decode th mem samples) = Inr (settle ?dF)"
    by (simp only: cyc run settled_simps)
  from settledD [OF this] obtain d where d: "decode th mem samples = Inr d"
    and s: "settle d = settle ?dF" by blast
  have f: "d_blocks ?dF = [data_block ?p]" "d_out ?dF = []" "cur ?dF = new_block"
    by (simp_all add: init_decoder_def cur_def)
  from settle_eqD [OF s] f have "d_blocks d = [data_block ?p]" "d_out d = []" "cur d = new_block"
    by simp_all
  with d cur_new_block [of d] show ?thesis
    by (simp add: data_block_def)
qed

theorem data_frame_round_trip_witness:
  "measured_cycles (wave_of (tape_cycles [0x3C, 0x01, 0x03, 0x1E, 0x00, 0x41, 0x63, 0x55]))
     = 0 # tape_cycles [0x3C, 0x01, 0x03, 0x1E, 0x00, 0x41, 0x63, 0x55]
   \<and> map (classify default_thresholds) (tape_cycles [0x3C, 0x01, 0x03, 0x1E, 0x00, 0x41, 0x63, 0x55])
     = frame_bits [0x3C, 0x01, 0x03, 0x1E, 0x00, 0x41, 0x63, 0x55]
   \<and> (\<exists>d. decode default_thresholds (\<lambda>j. True)
              (wave_of (tape_cycles [0x3C, 0x01, 0x03, 0x1E, 0x00, 0x41, 0x63, 0x55])) = Inr d
        \<and> d_blocks d = [data_block [0x1E, 0x00, 0x41]]
        \<and> b_data (data_block [0x1E, 0x00, 0x41]) = Some [0x1E, 0x00, 0x41, 0x00])"
proof -
  let ?f = "[0x3C, 0x01, 0x03, 0x1E, 0x00, 0x41, 0x63, 0x55] :: u8 list"
  have m: "measured_cycles (wave_of (tape_cycles ?f)) = 0 # tape_cycles ?f"
    by (rule measured_wave) (simp add: tape_cycles_ge)
  have c: "map (classify default_thresholds) (tape_cycles ?f) = frame_bits ?f"
    by (rule classify_tape)
  have a: "\<forall>j. (\<lambda>j. True) j" by simp
  from data_frame_round_trip [OF a m c] m c show ?thesis by blast
qed

section \<open>Checksum enforcement\<close>

lemma decode_loop_append:
  "decode_loop th mem j prev (ys @ zs) d
    = bind_err (decode_loop th mem j prev ys d)
        (decode_loop th mem (j + length ys) (last (prev # ys)) zs)"
  by (induction ys arbitrary: j prev d) (simp_all split: sum.splits)


lemma decode_loop_open:
  assumes mem: "\<forall>j. mem j"
    and cyc: "cycle_counts (d_count d) prev xs = cs"
    and ne: "cs \<noteq> []"
    and blk: "block_cycles th True cs (cur d) = Inr cb'"
    and st: "b_state cb' \<noteq> BS_DONE" "b_state cb' \<noteq> BS_NEED_SYNCBYTE"
  shows "\<exists>d'. decode_loop th mem j prev xs d = Inr d'
     \<and> d_blocks d' = d_blocks d \<and> d_out d' = d_out d \<and> d_cb d' = Some cb'"
proof -
  let ?X = "(settle d)\<lparr>d_count := 1, d_cb := Some cb'\<rparr>"
  have "crossings th cs d = Inr ?X"
    using crossings_block [OF ne, of th d] blk st(1) by (simp add: close_block_open)
  with decode_loop_crossings [OF mem, of th j prev xs d]
  have "settled (decode_loop th mem j prev xs d) = Inr (settle ?X)"
    by (simp only: cyc settled_simps)
  from settledD [OF this] obtain d' where r: "decode_loop th mem j prev xs d = Inr d'"
    and s: "settle d' = settle ?X" by blast
  from settle_eqD [OF s] have f: "d_blocks d' = d_blocks d" "d_out d' = d_out d" "cur d' = cb'"
    by (simp_all add: cur_def)
  have "d_cb d' = Some cb'"
  proof (cases "d_cb d'")
    case None
    then have "cur d' = new_block" by (simp add: cur_def)
    with f(3) have "cb' = new_block" by simp
    then have "b_state cb' = BS_NEED_SYNCBYTE" by (simp add: new_block_def)
    with st(2) show ?thesis by simp
  next
    case (Some b)
    with f(3) show ?thesis by (simp add: cur_def)
  qed
  with r f show ?thesis by blast
qed



lemma cycle_wave_split:
  assumes "2 \<le> c"
  shows "\<exists>h m. cycle_wave c = (- 1) # replicate h (- 1) @ replicate (Suc m) 1
           \<and> 2 + int h + int m = c"
proof -
  define a where "a = nat c div 2"
  define b where "b = nat c - nat c div 2"
  have "a \<ge> 1" "b \<ge> 1" "int a + int b = c" using assms unfolding a_def b_def by linarith+
  then obtain h m where "a = Suc h" "b = Suc m" "2 + int h + int m = c"
    by (cases a; cases b) auto
  moreover have "cycle_wave c = replicate a (- 1) @ replicate b 1"
    by (simp add: cycle_wave_def a_def b_def)
  ultimately show ?thesis by auto
qed

lemma last_wave:
  assumes "\<forall>c\<in>set cs. 2 \<le> c"
  shows "last (1 # concat (map cycle_wave cs)) = 1"
  using assms
proof (induction cs rule: rev_induct)
  case Nil
  show ?case by simp
next
  case (snoc c cs)
  then have "2 \<le> c" by simp
  from cycle_wave_split [OF this] obtain h m
    where "cycle_wave c = (- 1) # replicate h (- 1) @ replicate (Suc m) 1" by blast
  then show ?case by simp
qed


lemma decode_loop_last_count:
  assumes mem: "\<forall>j. mem j"
    and run: "decode_loop th mem j prev (ys @ [y]) d = Inr d'"
    and f: "falling (last (prev # ys)) y"
  shows "d_count d' = 1"
proof -
  from run obtain d1 where "decode_loop th mem j prev ys d = Inr d1"
    and l: "decode_loop th mem (j + length ys) (last (prev # ys)) [y] d1 = Inr d'"
    by (auto simp: decode_loop_append bind_err_Inr)
  have m: "mem (j + length ys) = True" using mem by simp
  from l have "crossing th (d_count d1) d1 = Inr d'"
    unfolding decode_loop.simps m sample_step_crossing [OF f]
    by (simp split: sum.splits)
  then show ?thesis by (rule crossing_count)
qed



lemma tape_cycles_Cons_ne: "tape_cycles (b # bs) \<noteq> []"
  by (simp add: tape_cycles_def byte_bits_def upt8)



section \<open>The first falling crossing\<close>

lemma quiet_samples:
  assumes mem: "\<forall>j. mem j"
    and q: "\<forall>i<length xs. \<not> falling ((x0 # xs) ! i) (xs ! i)"
  shows "\<exists>d'. decode_loop th mem j x0 xs d = Inr d' \<and> settle d' = settle d
           \<and> d_count d' = d_count d + int (length xs)"
  using q
proof (induction xs arbitrary: j x0 d)
  case Nil
  show ?case by simp
next
  case (Cons x xs)
  have m: "mem j = True" using mem by simp
  from Cons.prems have nf: "\<not> falling x0 x" by auto
  from Cons.prems have q': "\<forall>i<length xs. \<not> falling ((x # xs) ! i) (xs ! i)" by auto
  from sample_step_idle [OF nf, of th d] obtain d1
    where s: "sample_step th True x0 x d = Inr d1" and e: "settle d1 = settle d"
      and c: "d_count d1 = d_count d + 1" by blast
  from Cons.IH [OF q', of "Suc j" d1] obtain d'
    where "decode_loop th mem (Suc j) x xs d1 = Inr d'" "settle d' = settle d1"
      "d_count d' = d_count d1 + int (length xs)" by blast
  with s e c show ?case by (simp add: m)
qed

lemma first_cycle:
  "crossing th c init_decoder
    = Inr \<lparr>d_count = 1, d_nblocks = 1, d_blocks = [],
           d_cb = Some (new_block\<lparr>b_byte := (if classify th c = One then 0x80 else 0)\<rparr>),
           d_out = []\<rparr>"
proof -
  let ?w = "shift_byte (classify th c) 0"
  have w: "?w = (if classify th c = One then 0x80 else 0)"
    by (cases "classify th c") (simp_all add: shift_byte_def)
  then have "?w \<noteq> SYNCBYTE" by (simp add: SYNCBYTE_def)
  then have "cycle_step th True c new_block = Inr (new_block\<lparr>b_byte := ?w\<rparr>)"
    using cycle_step_sync_miss [of new_block th c True] by (simp add: new_block_def)
  then show ?thesis
    unfolding w
    by (simp add: crossing_close cur_def init_decoder_def close_block_open new_block_def settle_def)
qed

lemma falling_iff: "falling a b \<longleftrightarrow> sint b < 0 \<and> 0 \<le> sint a"
  by (auto simp: falling_def)

text \<open>
  Claim C9. A sample is a falling zero crossing exactly when it is negative and the
  sample before it is not: a sample that is none only advances the counter, and a
  sample that is one classifies the count reached since the crossing before it, hands
  the block to \<open>process_bit\<close> and restarts the counter. The first falling crossing of a
  run is treated like every other one: when it comes at index \<open>j\<close>, after samples
  without a falling crossing, the count \<open>j - 1\<close> reached since the start of the run
  is classified, and a count in the One interval puts a one bit into the byte under
  assembly of the first block. The header comment of the program describes a cycle as
  counted from one falling crossing to the next. Every allocation is taken to succeed.
\<close>

theorem first_crossing_classified:
  assumes mem: "\<forall>j. mem j"
    and quiet: "\<forall>i<length xs. \<not> (sint (xs ! i) < 0 \<and> 0 \<le> sint ((x0 # xs) ! i))"
    and fall: "sint y < 0 \<and> 0 \<le> sint (last (x0 # xs))"
  shows "(\<not> (sint b < 0 \<and> 0 \<le> sint a) \<longrightarrow>
            (\<exists>d'. sample_step th True a b d = Inr d' \<and> cur d' = cur d
                \<and> d_blocks d' = d_blocks d \<and> d_out d' = d_out d
                \<and> d_count d' = d_count d + 1))
     \<and> (sint b < 0 \<and> 0 \<le> sint a \<longrightarrow>
            sample_step th True a b d
              = bind_err (cycle_step th True (d_count d) (cur d)) (\<lambda>cb.
                  bind_err (block_done (settle d) cb) (\<lambda>d2. Inr (d2\<lparr>d_count := 1\<rparr>))))
     \<and> decode th mem (x0 # xs @ [y])
        = Inr \<lparr>d_count = 1, d_nblocks = 1, d_blocks = [],
               d_cb = Some (new_block\<lparr>b_byte :=
                          (if classify th (int (length xs)) = One then 0x80 else 0)\<rparr>),
               d_out = []\<rparr>"
proof (intro conjI impI)
  assume "\<not> (sint b < 0 \<and> 0 \<le> sint a)"
  then have "\<not> falling a b" by (simp add: falling_iff)
  from sample_step_idle [OF this, of th d] obtain d'
    where s: "sample_step th True a b d = Inr d'" and e: "settle d' = settle d"
      and c: "d_count d' = d_count d + 1" by blast
  from settle_eqD [OF e] s c
  show "\<exists>d'. sample_step th True a b d = Inr d' \<and> cur d' = cur d
                \<and> d_blocks d' = d_blocks d \<and> d_out d' = d_out d
                \<and> d_count d' = d_count d + 1"
    by simp
next
  assume "sint b < 0 \<and> 0 \<le> sint a"
  then have "falling a b" by (simp add: falling_iff)
  then show "sample_step th True a b d
              = bind_err (cycle_step th True (d_count d) (cur d)) (\<lambda>cb.
                  bind_err (block_done (settle d) cb) (\<lambda>d2. Inr (d2\<lparr>d_count := 1\<rparr>)))"
    by (simp only: sample_step_crossing crossing_eq)
next
  from quiet have q: "\<forall>i<length xs. \<not> falling ((x0 # xs) ! i) (xs ! i)"
    by (simp add: falling_iff)
  from fall have f: "falling (last (x0 # xs)) y" by (simp add: falling_iff)
  from quiet_samples [OF mem q, of th 1 init_decoder] obtain d'
    where r: "decode_loop th mem 1 x0 xs init_decoder = Inr d'"
      and s: "settle d' = settle init_decoder"
      and c: "d_count d' = int (length xs)"
    by (auto simp: init_decoder_def)
  have m: "mem (1 + length xs) = True" using mem by simp
  have "decode th mem (x0 # xs @ [y])
      = decode_loop th mem (1 + length xs) (last (x0 # xs)) [y] d'"
    by (simp only: decode_def list.case decode_loop_append r bind_err_simps)
  also have "\<dots> = sample_step th True (last (x0 # xs)) y d'"
    unfolding decode_loop.simps m by (simp split: sum.splits)
  also have "\<dots> = crossing th (int (length xs)) d'"
    by (simp only: sample_step_crossing [OF f] c)
  also have "\<dots> = crossing th (int (length xs)) init_decoder"
    by (rule crossing_same [OF s])
  finally show "decode th mem (x0 # xs @ [y])
        = Inr \<lparr>d_count = 1, d_nblocks = 1, d_blocks = [],
               d_cb = Some (new_block\<lparr>b_byte :=
                          (if classify th (int (length xs)) = One then 0x80 else 0)\<rparr>),
               d_out = []\<rparr>"
    by (simp only: first_cycle)
qed

theorem first_crossing_classified_witness:
  "classify default_thresholds 18 = One
   \<and> decode default_thresholds (\<lambda>j. True) (1 # replicate 18 1 @ [- 1])
        = Inr \<lparr>d_count = 1, d_nblocks = 1, d_blocks = [],
               d_cb = Some (new_block\<lparr>b_byte := 0x80\<rparr>), d_out = []\<rparr>"
proof -
  have q: "\<forall>i<length (replicate 18 (1 :: s16)).
      \<not> (sint (replicate 18 (1 :: s16) ! i) < 0 \<and> 0 \<le> sint ((1 # replicate 18 (1 :: s16)) ! i))"
    by simp
  have f: "sint (- 1 :: s16) < 0 \<and> 0 \<le> sint (last (1 # replicate 18 (1 :: s16)))" by simp
  have a: "\<forall>j. (\<lambda>j. True) j" by simp
  have k: "classify default_thresholds 18 = One"
    by (simp add: classify_def default_thresholds_def OL_def OH_def)
  from first_crossing_classified [OF a q f, where th = default_thresholds,
      THEN conjunct2, THEN conjunct2] k
  show ?thesis by simp
qed

section \<open>The byte after the payload\<close>

lemma decode_wave_open:
  assumes mem: "\<forall>j. mem j"
    and ge: "\<forall>c\<in>set cs. 2 \<le> c"
    and blk: "block_cycles th True (0 # cs) new_block = Inr cb'"
    and st: "b_state cb' \<noteq> BS_DONE" "b_state cb' \<noteq> BS_NEED_SYNCBYTE"
  shows "decode th mem (wave_of cs)
    = Inr \<lparr>d_count = 1, d_nblocks = 1, d_blocks = [], d_cb = Some cb', d_out = []\<rparr>"
proof -
  let ?xs = "concat (map cycle_wave cs) @ [- 1]"
  let ?D = "\<lparr>d_count = 1, d_nblocks = 1, d_blocks = [], d_cb = Some cb', d_out = []\<rparr>"
  have dec: "decode th mem (wave_of cs) = decode_loop th mem 1 1 ?xs init_decoder"
    by (simp add: decode_def wave_of_def)
  have cc: "cycle_counts (d_count init_decoder) 1 ?xs = 0 # cs"
    using cycle_counts_wave [OF _ ge, of 1 0] by (simp add: init_decoder_def)
  have b: "block_cycles th True (0 # cs) (cur init_decoder) = Inr cb'"
    using blk by (simp add: cur_def init_decoder_def)
  from decode_loop_open [OF mem cc _ b st, of 1] obtain d
    where r: "decode_loop th mem 1 1 ?xs init_decoder = Inr d"
      and f: "d_blocks d = []" "d_out d = []" "d_cb d = Some cb'"
    by (auto simp: init_decoder_def)
  have fl: "falling (last (1 # concat (map cycle_wave cs))) (- 1)"
    by (simp only: last_wave [OF ge]) (simp add: falling_def)
  have cnt: "d_count d = 1" by (rule decode_loop_last_count [OF mem r fl])
  from decode_loop_crossings [OF mem, of th 1 1 ?xs init_decoder] r
  have "Inr (settle d) = settled (crossings th (0 # cs) init_decoder)"
    by (simp only: cc settled_simps)
  moreover have "crossings th (0 # cs) init_decoder
      = Inr ((settle init_decoder)\<lparr>d_count := 1, d_cb := Some cb'\<rparr>)"
    using crossings_block [of "0 # cs" th init_decoder] b st(1) by (simp add: close_block_open)
  ultimately have "settle d = settle ((settle init_decoder)\<lparr>d_count := 1, d_cb := Some cb'\<rparr>)"
    by simp
  then have "d_nblocks (settle d) = 1" by (simp add: settle_def init_decoder_def)
  with f(3) have "d_nblocks d = 1" by (simp add: settle_def)
  with cnt f have "d = ?D" by (intro decoder.equality) simp_all
  with r dec show ?thesis by simp
qed

lemma first_cycle_default: "cycle_step default_thresholds ok 0 new_block = Inr new_block"
  by (simp add: cycle_step_def classify_def default_thresholds_def OL_def OH_def ZL_def ZH_def
      shift_bit_def process_bit_def new_block_def SYNCBYTE_def)

text \<open>
  Claim C10. The payload buffer of a Data block holds \<open>length + 1\<close> zeroed bytes, and
  the test that ends the payload, \<open>b_length == b_data_i\<close>, comes after the store and
  the increment of the index. On a tape that holds a sync byte, the Data block type, a
  length byte of zero and the byte \<open>0x07\<close>, the buffer is one byte long and \<open>0x07\<close> is
  stored at index 0, which is index \<open>length\<close>: the byte after the payload is not zero,
  a payload byte has been written beyond index \<open>length - 1\<close>, and the block still
  awaits payload bytes.
\<close>

theorem zero_length_data_block:
  "decode default_thresholds (\<lambda>j. True) (wave_of (tape_cycles [0x3C, 0x01, 0x00, 0x07]))
    = Inr \<lparr>d_count = 1, d_nblocks = 1, d_blocks = [],
           d_cb = Some (new_block\<lparr>b_state := BS_NEED_DATA, b_type := BT_DATA, b_length := 0,
                    b_cksum := 0x08, b_data := Some [0x07], b_nbit := 1, b_data_i := 1\<rparr>),
           d_out = []\<rparr>"
proof -
  let ?th = default_thresholds
  let ?cb0 = "new_block\<lparr>b_byte := 0, b_nbit := 1, b_state := BS_NEED_BLOCKTYPE\<rparr>"
  let ?cb' = "new_block\<lparr>b_state := BS_NEED_DATA, b_type := BT_DATA, b_length := 0,
                    b_cksum := 0x08, b_data := Some [0x07], b_nbit := 1, b_data_i := 1\<rparr>"
  have sy: "map (classify ?th) (tape_cycles [0x3C]) = byte_bits SYNCBYTE"
    using classify_tape [of "[0x3C]"] by (simp add: SYNCBYTE_def)
  have s1: "block_cycles ?th True (tape_cycles [0x3C] @ tape_cycles [0x01, 0x00, 0x07]) new_block
      = block_cycles ?th True (tape_cycles [0x01, 0x00, 0x07]) ?cb0"
    by (rule sync8 [OF _ _ sy]) (simp_all add: new_block_def)
  have co: "collects True [0x01, 0x00, 0x07] ?cb0"
    by (simp add: process_bit_def nbit_incr_def Let_def blocktype_of_def store_def new_block_def)
  have fe: "feed_bytes True [0x01, 0x00, 0x07] ?cb0 = Inr ?cb'"
    by (simp add: process_bit_def nbit_incr_def Let_def blocktype_of_def store_def new_block_def)
  have "block_cycles ?th True (tape_cycles [0x01, 0x00, 0x07] @ []) ?cb0
      = bind_err (feed_bytes True [0x01, 0x00, 0x07] ?cb0) (block_cycles ?th True [])"
    by (rule feed_bytes_cycles [OF co classify_tape])
  then have s2: "block_cycles ?th True (tape_cycles [0x01, 0x00, 0x07]) ?cb0 = Inr ?cb'"
    by (simp only: fe bind_err_simps append_Nil2 block_cycles.simps)
  have "block_cycles ?th True (0 # tape_cycles [0x3C, 0x01, 0x00, 0x07]) new_block = Inr ?cb'"
    using s1 s2 tape_cycles_append [of "[0x3C]" "[0x01, 0x00, 0x07]"]
    by (simp add: first_cycle_default)
  then show ?thesis
    by (intro decode_wave_open) (simp_all add: tape_cycles_ge)
qed

section \<open>Resynchronization\<close>

lemma outcome_simps [simp]:
  "outcome (Inl e) = Inl e" "outcome (Inr d) = Inr (d_blocks d, d_out d)"
  by (simp_all add: outcome_def)

lemma outcome_settled: "outcome (settled r) = outcome r"
  by (cases r) simp_all

lemma nblocks_open: "d_nblocks (settle (d\<lparr>d_count := n, d_cb := Some cb\<rparr>)) = d_nblocks d"
  by (simp add: settle_def)

lemma cycle_step_nbit:
  assumes "b_state cb = BS_NEED_SYNCBYTE"
  shows "cycle_step th ok c (cb\<lparr>b_nbit := n\<rparr>)
    = (if shift_byte (classify th c) (b_byte cb) = SYNCBYTE then cycle_step th ok c cb
       else Inr (cb\<lparr>b_byte := shift_byte (classify th c) (b_byte cb), b_nbit := n\<rparr>))"
  using assms by (simp add: cycle_step_def shift_bit_byte process_bit_def)

lemma crossing_alike:
  assumes "scanning_alike d1 d2"
  shows "(\<exists>e. crossing th c d1 = Inl e \<and> crossing th c d2 = Inl e)
       \<or> (\<exists>d1' d2'. crossing th c d1 = Inr d1' \<and> crossing th c d2 = Inr d2'
              \<and> scanning_alike d1' d2')"
proof -
  from assms have eq: "d_blocks d1 = d_blocks d2" "d_out d1 = d_out d2"
    "d_nblocks (settle d1) = d_nblocks (settle d2)"
    and alt: "cur d1 = cur d2
         \<or> b_state (cur d2) = BS_NEED_SYNCBYTE \<and> cur d1 = (cur d2)\<lparr>b_nbit := b_nbit (cur d1)\<rparr>"
    by (simp_all add: scanning_alike_def)
  have cl: "close_block d1 = close_block d2"
    by (rule ext) (rule close_block_same [OF eq])
  have same: "cycle_step th True c (cur d1) = cycle_step th True c (cur d2)
      \<Longrightarrow> ?thesis"
  proof -
    assume "cycle_step th True c (cur d1) = cycle_step th True c (cur d2)"
    then have e: "crossing th c d1 = crossing th c d2" by (simp add: crossing_close cl)
    show ?thesis
    proof (cases "crossing th c d2")
      case (Inl e')
      with e show ?thesis by simp
    next
      case (Inr d')
      have "scanning_alike d' d'" by (simp add: scanning_alike_def)
      with e Inr show ?thesis by simp
    qed
  qed
  from alt show ?thesis
  proof
    assume "cur d1 = cur d2"
    then show ?thesis by (intro same) simp
  next
    assume a: "b_state (cur d2) = BS_NEED_SYNCBYTE
        \<and> cur d1 = (cur d2)\<lparr>b_nbit := b_nbit (cur d1)\<rparr>"
    let ?w = "shift_byte (classify th c) (b_byte (cur d2))"
    from a have st: "b_state (cur d2) = BS_NEED_SYNCBYTE" by simp
    from a have c1: "cycle_step th True c (cur d1)
        = cycle_step th True c ((cur d2)\<lparr>b_nbit := b_nbit (cur d1)\<rparr>)" by simp
    show ?thesis
    proof (cases "?w = SYNCBYTE")
      case True
      then show ?thesis by (intro same) (simp add: c1 cycle_step_nbit [OF st])
    next
      case False
      let ?c2 = "(cur d2)\<lparr>b_byte := ?w\<rparr>"
      let ?c1 = "(cur d2)\<lparr>b_byte := ?w, b_nbit := b_nbit (cur d1)\<rparr>"
      have s2: "cycle_step th True c (cur d2) = Inr ?c2"
        by (rule cycle_step_sync_miss [OF st False])
      have s1: "cycle_step th True c (cur d1) = Inr ?c1"
        using False by (simp add: c1 cycle_step_nbit [OF st])
      have r2: "crossing th c d2 = Inr ((settle d2)\<lparr>d_count := 1, d_cb := Some ?c2\<rparr>)"
        using st by (simp add: crossing_close s2 close_block_open)
      have r1: "crossing th c d1 = Inr ((settle d1)\<lparr>d_count := 1, d_cb := Some ?c1\<rparr>)"
        using st by (simp add: crossing_close s1 close_block_open)
      have "scanning_alike ((settle d1)\<lparr>d_count := 1, d_cb := Some ?c1\<rparr>)
          ((settle d2)\<lparr>d_count := 1, d_cb := Some ?c2\<rparr>)"
        using eq st by (simp add: scanning_alike_def nblocks_open cur_open)
      with r1 r2 show ?thesis by simp
    qed
  qed
qed

lemma crossings_alike:
  assumes "scanning_alike d1 d2"
  shows "(\<exists>e. crossings th cs d1 = Inl e \<and> crossings th cs d2 = Inl e)
       \<or> (\<exists>d1' d2'. crossings th cs d1 = Inr d1' \<and> crossings th cs d2 = Inr d2'
              \<and> scanning_alike d1' d2')"
  using assms
proof (induction cs arbitrary: d1 d2)
  case Nil
  then show ?case by simp
next
  case (Cons c cs)
  from crossing_alike [OF Cons.prems, of th c] show ?case
  proof (elim disjE exE conjE)
    fix e assume "crossing th c d1 = Inl e" "crossing th c d2 = Inl e"
    then show ?thesis by simp
  next
    fix d1' d2' assume "crossing th c d1 = Inr d1'" "crossing th c d2 = Inr d2'"
      "scanning_alike d1' d2'"
    with Cons.IH [of d1' d2'] show ?thesis by simp
  qed
qed

lemma crossings_outcome:
  assumes "scanning_alike d1 d2"
  shows "outcome (crossings th cs d1) = outcome (crossings th cs d2)"
  using crossings_alike [OF assms, of th cs] by (auto simp: scanning_alike_def)

lemma bad_type_block:
  assumes sp: "map (classify th) sp = frame_bits [SYNCBYTE, t]"
    and t: "t \<noteq> 0x00" "t \<noteq> 0x01" "t \<noteq> 0xFF"
  shows "block_cycles th True sp new_block = Inr (new_block\<lparr>b_nbit := 1\<rparr>)"
proof -
  from sp have "map (classify th) sp = byte_bits SYNCBYTE @ byte_bits t" by simp
  from map_eq_appendD [OF this] obtain c1 c2 where cs: "sp = c1 @ c2"
    and c1: "map (classify th) c1 = byte_bits SYNCBYTE"
    and c2: "map (classify th) c2 = byte_bits t" by blast
  let ?b1 = "new_block\<lparr>b_byte := 0, b_nbit := 1, b_state := BS_NEED_BLOCKTYPE\<rparr>"
  have s1: "block_cycles th True (c1 @ c2) new_block = block_cycles th True c2 ?b1"
    by (rule sync8 [OF _ _ c1]) (simp_all add: new_block_def)
  have s2: "block_cycles th True (c2 @ []) ?b1
      = bind_err (process_bit True (?b1\<lparr>b_byte := t, b_nbit := 8\<rparr>)) (block_cycles th True [])"
    by (rule collect8 [OF _ _ _ c2]) simp_all
  have "process_bit True (?b1\<lparr>b_byte := t, b_nbit := 8\<rparr>)
      = Inr (?b1\<lparr>b_state := BS_NEED_SYNCBYTE, b_byte := 0, b_nbit := 1\<rparr>)"
    using t by (simp add: blocktype_byte)
  moreover have "?b1\<lparr>b_state := BS_NEED_SYNCBYTE, b_byte := 0, b_nbit := 1\<rparr> = new_block\<lparr>b_nbit := 1\<rparr>"
    by (intro block.equality) (simp_all add: new_block_def)
  ultimately show ?thesis using s1 s2 by (simp add: cs)
qed

text \<open>
  Claim C7 (amended). A sync byte followed by one byte that fails block-type validation
  (a byte other than \<open>0x00\<close>, \<open>0x01\<close> and \<open>0xFF\<close> where a block type is expected),
  and nothing else, is inserted between two parts of a tape, the first of which, decoded
  alone, ends at a block boundary (no block under construction, or an untouched one).
  After the inserted bytes the state machine is back in the state that awaits the sync
  byte, in the same block, and goes on scanning; and the tape with the inserted bytes
  decodes to the same completed blocks and the same printed text, or ends with the same
  error, as the tape without them. In particular a valid Data frame that follows the
  inserted bytes is decoded to its completed block, after the blocks of the first part.
  The tape is given by the cycles measured over its samples, and every allocation is
  taken to succeed.
\<close>

theorem resynchronization:
  assumes mem: "\<forall>j. mem j"
    and first: "measured_cycles s1 = xs" "decode th mem s1 = Inr d" "cur d = new_block"
    and sp: "map (classify th) sp = frame_bits [SYNCBYTE, t]"
    and t: "t \<noteq> 0x00" "t \<noteq> 0x01" "t \<noteq> 0xFF"
    and mid: "measured_cycles s2 = xs @ sp"
    and ins: "measured_cycles s3 = xs @ sp @ ys"
    and plain: "measured_cycles s4 = xs @ ys"
  shows "(\<exists>d'. decode th mem s2 = Inr d' \<and> d_blocks d' = d_blocks d \<and> d_out d' = d_out d
            \<and> d_cb d' = Some (new_block\<lparr>b_nbit := 1\<rparr>)
            \<and> b_state (new_block\<lparr>b_nbit := 1\<rparr>) = BS_NEED_SYNCBYTE)
       \<and> outcome (decode th mem s3) = outcome (decode th mem s4)
       \<and> (l \<noteq> 0 \<and> length payload = unat l
            \<and> map (classify th) ys
               = frame_bits (SYNCBYTE # 0x01 # l # payload @ [1 + l + sum_list payload, lead])
          \<longrightarrow> outcome (decode th mem s3) = Inr (d_blocks d @ [data_block payload], d_out d))"
proof -
  from decode_crossings [OF mem, of th s1] first(1,2)
  have "settled (crossings th xs init_decoder) = Inr (settle d)" by simp
  from settledD [OF this] obtain dx where x: "crossings th xs init_decoder = Inr dx"
    and sx: "settle dx = settle d" by blast
  from settle_eqD [OF sx] first(3)
  have fx: "d_blocks dx = d_blocks d" "d_out dx = d_out d" "cur dx = new_block" by simp_all
  have ne: "sp \<noteq> []" using sp by (auto simp: byte_bits_def)
  let ?dsp = "(settle dx)\<lparr>d_count := 1, d_cb := Some (new_block\<lparr>b_nbit := 1\<rparr>)\<rparr>"
  have b: "block_cycles th True sp (cur dx) = Inr (new_block\<lparr>b_nbit := 1\<rparr>)"
    unfolding fx(3) by (rule bad_type_block [OF sp t])
  have y: "crossings th sp dx = Inr ?dsp"
    using crossings_block [OF ne, of th dx] b by (simp add: close_block_open new_block_def)
  have al: "scanning_alike ?dsp dx"
    unfolding scanning_alike_def
  proof (intro conjI)
    show "d_blocks ?dsp = d_blocks dx" by simp
    show "d_out ?dsp = d_out dx" by simp
    show "d_nblocks (settle ?dsp) = d_nblocks (settle dx)"
      by (simp only: nblocks_open)
    have c: "cur ?dsp = new_block\<lparr>b_nbit := 1\<rparr>" by (simp only: cur_open)
    show "cur ?dsp = cur dx
        \<or> b_state (cur dx) = BS_NEED_SYNCBYTE \<and> cur ?dsp = (cur dx)\<lparr>b_nbit := b_nbit (cur ?dsp)\<rparr>"
      unfolding c fx(3) by (simp add: new_block_def)
  qed
  have same: "outcome (decode th mem s3) = outcome (decode th mem s4)"
  proof -
    have "outcome (decode th mem s3) = outcome (crossings th (xs @ sp @ ys) init_decoder)"
      using decode_crossings [OF mem, of th s3] outcome_settled
      by (metis ins)
    also have "\<dots> = outcome (crossings th ys ?dsp)"
      by (simp add: crossings_append x y)
    also have "\<dots> = outcome (crossings th ys dx)"
      by (rule crossings_outcome [OF al])
    also have "\<dots> = outcome (crossings th (xs @ ys) init_decoder)"
      by (simp add: crossings_append x)
    also have "\<dots> = outcome (decode th mem s4)"
      using decode_crossings [OF mem, of th s4] outcome_settled
      by (metis plain)
    finally show ?thesis .
  qed
  show ?thesis
  proof (intro conjI impI)
    have "settled (decode th mem s2) = Inr (settle ?dsp)"
      using decode_crossings [OF mem, of th s2] by (simp add: mid crossings_append x y)
    from settledD [OF this] obtain d' where r: "decode th mem s2 = Inr d'"
      and s: "settle d' = settle ?dsp" by blast
    from settle_eqD [OF s] have f: "d_blocks d' = d_blocks d" "d_out d' = d_out d"
      "cur d' = new_block\<lparr>b_nbit := 1\<rparr>" by (simp_all add: fx cur_def)
    have "d_cb d' = Some (new_block\<lparr>b_nbit := 1\<rparr>)"
    proof (cases "d_cb d'")
      case None
      then have "cur d' = new_block" by (simp add: cur_def)
      with f(3) have "new_block\<lparr>b_nbit := 1\<rparr> = new_block" by simp
      then have "b_nbit (new_block\<lparr>b_nbit := 1\<rparr>) = b_nbit new_block" by simp
      then show ?thesis by (simp add: new_block_def)
    next
      case (Some cb)
      with f(3) show ?thesis by (simp add: cur_def)
    qed
    with r f show "\<exists>d'. decode th mem s2 = Inr d' \<and> d_blocks d' = d_blocks d \<and> d_out d' = d_out d
            \<and> d_cb d' = Some (new_block\<lparr>b_nbit := 1\<rparr>)
            \<and> b_state (new_block\<lparr>b_nbit := 1\<rparr>) = BS_NEED_SYNCBYTE"
      by (simp add: new_block_def)
  next
    show "outcome (decode th mem s3) = outcome (decode th mem s4)" by (rule same)
  next
    assume a: "l \<noteq> 0 \<and> length payload = unat l
            \<and> map (classify th) ys
               = frame_bits (SYNCBYTE # 0x01 # l # payload @ [1 + l + sum_list payload, lead])"
    have cu: "cur dx = new_block\<lparr>b_byte := 0\<rparr>"
      unfolding fx(3) by (intro block.equality) (simp_all add: new_block_def)
    have "crossings th ys dx
        = Inr ((settle dx)\<lparr>d_count := 1, d_blocks := d_blocks dx @ [data_block payload], d_cb := None\<rparr>)"
      by (rule data_frame_crossings [OF cu]) (use a in simp_all)
    then have "outcome (crossings th (xs @ ys) init_decoder)
        = Inr (d_blocks d @ [data_block payload], d_out d)"
      by (simp add: crossings_append x fx)
    moreover have "outcome (decode th mem s4) = outcome (crossings th (xs @ ys) init_decoder)"
      using decode_crossings [OF mem, of th s4] outcome_settled
      by (metis plain)
    ultimately show "outcome (decode th mem s3) = Inr (d_blocks d @ [data_block payload], d_out d)"
      by (simp only: same)
  qed
qed

lemma frame_run:
  assumes mem: "\<forall>j. mem j"
    and l: "l \<noteq> 0" "length payload = unat l"
    and ge: "\<forall>c\<in>set cs. 2 \<le> c"
    and cls: "map (classify th) cs
      = frame_bits (SYNCBYTE # 0x01 # l # payload @ [1 + l + sum_list payload, lead])"
  shows "\<exists>d. decode th mem (wave_of cs) = Inr d \<and> cur d = new_block
     \<and> d_blocks d = [data_block payload] \<and> d_out d = []"
proof -
  from first_crossing [of th 0] obtain w where w: "w = 0 \<or> w = 0x80"
    and c0: "crossing th 0 init_decoder
        = Inr ((settle init_decoder)\<lparr>d_count := 1, d_cb := Some (new_block\<lparr>b_byte := w\<rparr>)\<rparr>)"
    by blast
  let ?d0 = "(settle init_decoder)\<lparr>d_count := 1, d_cb := Some (new_block\<lparr>b_byte := w\<rparr>)\<rparr>"
  let ?dF = "(settle ?d0)\<lparr>d_count := 1, d_blocks := d_blocks ?d0 @ [data_block payload], d_cb := None\<rparr>"
  have "crossings th cs ?d0 = Inr ?dF"
    by (rule data_frame_crossings [OF _ w l cls]) (simp add: cur_def)
  then have run: "crossings th (0 # cs) init_decoder = Inr ?dF" by (simp add: c0)
  from decode_crossings [OF mem, of th "wave_of cs"]
  have "settled (decode th mem (wave_of cs)) = Inr (settle ?dF)"
    by (simp only: measured_wave [OF ge] run settled_simps)
  from settledD [OF this] obtain d where d: "decode th mem (wave_of cs) = Inr d"
    and s: "settle d = settle ?dF" by blast
  have f: "d_blocks ?dF = [data_block payload]" "d_out ?dF = []" "cur ?dF = new_block"
    by (simp_all add: init_decoder_def cur_def)
  from settle_eqD [OF s] f d show ?thesis by simp
qed

theorem resynchronization_witness:
  "outcome (decode default_thresholds (\<lambda>j. True)
      (wave_of (tape_cycles ([0x3C, 0x01, 0x03, 0x1E, 0x00, 0x41, 0x63, 0x55] @ [0x3C, 0x02]
          @ [0x3C, 0x01, 0x01, 0x07, 0x09, 0x55]))))
     = Inr ([data_block [0x1E, 0x00, 0x41], data_block [0x07]], [])
   \<and> outcome (decode default_thresholds (\<lambda>j. True)
      (wave_of (tape_cycles ([0x3C, 0x01, 0x03, 0x1E, 0x00, 0x41, 0x63, 0x55]
          @ [0x3C, 0x01, 0x01, 0x07, 0x09, 0x55]))))
     = Inr ([data_block [0x1E, 0x00, 0x41], data_block [0x07]], [])
   \<and> (\<exists>d'. decode default_thresholds (\<lambda>j. True)
          (wave_of (tape_cycles ([0x3C, 0x01, 0x03, 0x1E, 0x00, 0x41, 0x63, 0x55] @ [0x3C, 0x02])))
            = Inr d'
        \<and> d_blocks d' = [data_block [0x1E, 0x00, 0x41]]
        \<and> d_cb d' = Some (new_block\<lparr>b_nbit := 1\<rparr>))"
proof -
  let ?th = default_thresholds
  let ?mem = "\<lambda>j::nat. True"
  let ?F1 = "[0x3C, 0x01, 0x03, 0x1E, 0x00, 0x41, 0x63, 0x55] :: u8 list"
  let ?SP = "[0x3C, 0x02] :: u8 list"
  let ?F2 = "[0x3C, 0x01, 0x01, 0x07, 0x09, 0x55] :: u8 list"
  have mem: "\<forall>j. ?mem j" by simp
  have ge: "\<And>bs. \<forall>c\<in>set (tape_cycles bs). 2 \<le> c" by (simp add: tape_cycles_ge)
  have c1: "map (classify ?th) (tape_cycles ?F1)
      = frame_bits (SYNCBYTE # 0x01 # 3 # [0x1E, 0x00, 0x41] @ [1 + 3 + sum_list [0x1E, 0x00, 0x41], 0x55])"
    using classify_tape [of ?F1] by (simp add: SYNCBYTE_def)
  from frame_run [OF mem _ _ ge c1] obtain d
    where d: "decode ?th ?mem (wave_of (tape_cycles ?F1)) = Inr d" and cu: "cur d = new_block"
      and bl: "d_blocks d = [data_block [0x1E, 0x00, 0x41]]" and ou: "d_out d = []"
    by auto
  have m1: "measured_cycles (wave_of (tape_cycles ?F1)) = 0 # tape_cycles ?F1"
    by (rule measured_wave [OF ge])
  have e: "\<And>a b. (0 # a) @ b = (0 :: int) # (a @ b)" by simp
  have m2: "measured_cycles (wave_of (tape_cycles (?F1 @ ?SP)))
      = (0 # tape_cycles ?F1) @ tape_cycles ?SP"
    unfolding e tape_cycles_append [symmetric] by (rule measured_wave [OF ge])
  have m3: "measured_cycles (wave_of (tape_cycles (?F1 @ ?SP @ ?F2)))
      = (0 # tape_cycles ?F1) @ tape_cycles ?SP @ tape_cycles ?F2"
    unfolding e tape_cycles_append [symmetric] by (rule measured_wave [OF ge])
  have m4: "measured_cycles (wave_of (tape_cycles (?F1 @ ?F2)))
      = (0 # tape_cycles ?F1) @ tape_cycles ?F2"
    unfolding e tape_cycles_append [symmetric] by (rule measured_wave [OF ge])
  have sp: "map (classify ?th) (tape_cycles ?SP) = frame_bits [SYNCBYTE, 0x02]"
    using classify_tape [of ?SP] by (simp add: SYNCBYTE_def)
  have c2: "map (classify ?th) (tape_cycles ?F2)
      = frame_bits (SYNCBYTE # 0x01 # 1 # [0x07] @ [1 + 1 + sum_list [0x07], 0x55])"
    using classify_tape [of ?F2] by (simp add: SYNCBYTE_def)
  have t: "(0x02 :: u8) \<noteq> 0x00" "(0x02 :: u8) \<noteq> 0x01" "(0x02 :: u8) \<noteq> 0xFF" by simp_all
  note r = resynchronization [OF mem m1 d cu sp t m2 m3 m4, of 1 "[0x07]" "0x55"]
  have c: "\<exists>d'. decode ?th ?mem (wave_of (tape_cycles (?F1 @ ?SP))) = Inr d'
        \<and> d_blocks d' = [data_block [0x1E, 0x00, 0x41]]
        \<and> d_cb d' = Some (new_block\<lparr>b_nbit := 1\<rparr>)"
    using r [THEN conjunct1] bl by auto
  have b: "outcome (decode ?th ?mem (wave_of (tape_cycles (?F1 @ ?SP @ ?F2))))
      = outcome (decode ?th ?mem (wave_of (tape_cycles (?F1 @ ?F2))))"
    by (rule r [THEN conjunct2, THEN conjunct1])
  have a: "outcome (decode ?th ?mem (wave_of (tape_cycles (?F1 @ ?SP @ ?F2))))
      = Inr ([data_block [0x1E, 0x00, 0x41], data_block [0x07]], [])"
    using r [THEN conjunct2, THEN conjunct2] c2 bl ou by simp
  have p: "outcome (decode ?th ?mem (wave_of (tape_cycles (?F1 @ ?F2))))
      = Inr ([data_block [0x1E, 0x00, 0x41], data_block [0x07]], [])"
    unfolding b [symmetric] by (rule a)
  from a p c show ?thesis by blast
qed

lemma tape_unfold:
  "tape_cycles [0x3C, 0x02, 0x78, 0x3C, 0x01, 0x01, 0x07, 0x09, 0x55]
   = [36,36,18,18,18,18,36,36, 36,18,36,36,36,36,36,36, 36,36,36,18,18,18,18,36,
      36,36,18,18,18,18,36,36, 18,36,36,36,36,36,36,36, 18,36,36,36,36,36,36,36,
      18,18,18,36,36,36,36,36, 18,36,36,18,36,36,36,36, 18,36,18,36,18,36,18,36]"
  by (simp add: tape_cycles_def frame_bits_def byte_bits_def upt8 bit_cycle_def)

lemma false_sync_block:
  "block_cycles default_thresholds True
     (tape_cycles [0x3C, 0x02, 0x78, 0x3C, 0x01, 0x01, 0x07, 0x09, 0x55]) new_block
   = Inr (new_block\<lparr>b_byte := 0x55, b_nbit := 1\<rparr>)"
  unfolding tape_unfold
  by (simp add: cycle_step_def classify_def default_thresholds_def OL_def OH_def ZL_def ZH_def
      shift_bit_def process_bit_def nbit_incr_def new_block_def SYNCBYTE_def)

lemma frame_crossings:
  "\<exists>dF. crossings default_thresholds
        (0 # tape_cycles [0x3C, 0x01, 0x03, 0x1E, 0x00, 0x41, 0x63, 0x55]) init_decoder = Inr dF
      \<and> cur dF = new_block \<and> d_blocks dF = [data_block [0x1E, 0x00, 0x41]] \<and> d_out dF = []"
proof -
  let ?th = default_thresholds
  let ?F1 = "[0x3C, 0x01, 0x03, 0x1E, 0x00, 0x41, 0x63, 0x55] :: u8 list"
  have c1: "map (classify ?th) (tape_cycles ?F1)
      = frame_bits (SYNCBYTE # 0x01 # 3 # [0x1E, 0x00, 0x41] @ [1 + 3 + sum_list [0x1E, 0x00, 0x41], 0x55])"
    using classify_tape [of ?F1] by (simp add: SYNCBYTE_def)
  from first_crossing [of ?th 0] obtain w where w: "w = 0 \<or> w = 0x80"
    and c0: "crossing ?th 0 init_decoder
        = Inr ((settle init_decoder)\<lparr>d_count := 1, d_cb := Some (new_block\<lparr>b_byte := w\<rparr>)\<rparr>)"
    by blast
  let ?d0 = "(settle init_decoder)\<lparr>d_count := 1, d_cb := Some (new_block\<lparr>b_byte := w\<rparr>)\<rparr>"
  let ?dF = "(settle ?d0)\<lparr>d_count := 1, d_blocks := d_blocks ?d0 @ [data_block [0x1E, 0x00, 0x41]], d_cb := None\<rparr>"
  have "crossings ?th (tape_cycles ?F1) ?d0 = Inr ?dF"
    by (rule data_frame_crossings [OF _ w _ _ c1]) (simp_all add: cur_def)
  then have "crossings ?th (0 # tape_cycles ?F1) init_decoder = Inr ?dF" by (simp add: c0)
  moreover have "cur ?dF = new_block" "d_blocks ?dF = [data_block [0x1E, 0x00, 0x41]]" "d_out ?dF = []"
    by (simp_all add: init_decoder_def cur_def)
  ultimately show ?thesis by blast
qed

text \<open>
  Claim C7 as stated fails for longer spurious sequences: the bytes after the failed
  block type are scanned for the sync byte bit by bit. With the bytes \<open>0x3C\<close>, \<open>0x02\<close>,
  \<open>0x78\<close> inserted between two valid Data frames, the last seven bits of \<open>0x78\<close> and the
  first bit of the sync byte of the second frame make up a sync byte one bit early, and
  the second frame is not decoded: one completed block instead of two.
\<close>

theorem false_sync_loses_frame:
  "outcome (decode default_thresholds (\<lambda>j. True)
      (wave_of (tape_cycles ([0x3C, 0x01, 0x03, 0x1E, 0x00, 0x41, 0x63, 0x55]
          @ [0x3C, 0x02, 0x78] @ [0x3C, 0x01, 0x01, 0x07, 0x09, 0x55]))))
     = Inr ([data_block [0x1E, 0x00, 0x41]], [])
   \<and> outcome (decode default_thresholds (\<lambda>j. True)
      (wave_of (tape_cycles ([0x3C, 0x01, 0x03, 0x1E, 0x00, 0x41, 0x63, 0x55]
          @ [0x3C, 0x01, 0x01, 0x07, 0x09, 0x55]))))
     = Inr ([data_block [0x1E, 0x00, 0x41], data_block [0x07]], [])"
proof -
  let ?th = default_thresholds
  let ?mem = "\<lambda>j::nat. True"
  let ?F1 = "[0x3C, 0x01, 0x03, 0x1E, 0x00, 0x41, 0x63, 0x55] :: u8 list"
  let ?G = "[0x3C, 0x02, 0x78, 0x3C, 0x01, 0x01, 0x07, 0x09, 0x55] :: u8 list"
  let ?F2 = "[0x3C, 0x01, 0x01, 0x07, 0x09, 0x55] :: u8 list"
  have mem: "\<forall>j. ?mem j" by simp
  have ge: "\<And>bs. \<forall>c\<in>set (tape_cycles bs). 2 \<le> c" by (simp add: tape_cycles_ge)
  from frame_crossings obtain dF
    where x: "crossings ?th (0 # tape_cycles ?F1) init_decoder = Inr dF"
      and cu: "cur dF = new_block" and bl: "d_blocks dF = [data_block [0x1E, 0x00, 0x41]]"
      and ou: "d_out dF = []" by blast
  have dec: "\<And>bs. outcome (decode ?th ?mem (wave_of (tape_cycles (?F1 @ bs))))
      = outcome (crossings ?th (tape_cycles bs) dF)"
  proof -
    fix bs
    have e: "(0 # tape_cycles ?F1) @ tape_cycles bs = 0 # tape_cycles (?F1 @ bs)"
      using tape_cycles_append [of ?F1 bs] by simp
    have "settled (decode ?th ?mem (wave_of (tape_cycles (?F1 @ bs))))
        = settled (crossings ?th ((0 # tape_cycles ?F1) @ tape_cycles bs) init_decoder)"
      unfolding e
      using decode_crossings [OF mem, of ?th "wave_of (tape_cycles (?F1 @ bs))"]
      by (simp only: measured_wave [OF ge])
    also have "\<dots> = settled (crossings ?th (tape_cycles bs) dF)"
      by (simp only: crossings_append x bind_err_simps)
    finally have "outcome (settled (decode ?th ?mem (wave_of (tape_cycles (?F1 @ bs)))))
        = outcome (settled (crossings ?th (tape_cycles bs) dF))" by simp
    then show "outcome (decode ?th ?mem (wave_of (tape_cycles (?F1 @ bs))))
        = outcome (crossings ?th (tape_cycles bs) dF)"
      by (simp only: outcome_settled)
  qed
  have g: "crossings ?th (tape_cycles ?G) dF
      = Inr ((settle dF)\<lparr>d_count := 1, d_cb := Some (new_block\<lparr>b_byte := 0x55, b_nbit := 1\<rparr>)\<rparr>)"
  proof -
    have bc: "block_cycles ?th True (tape_cycles ?G) (cur dF)
        = Inr (new_block\<lparr>b_byte := 0x55, b_nbit := 1\<rparr>)"
      unfolding cu by (rule false_sync_block)
    have ne: "tape_cycles ?G \<noteq> []" by (rule tape_cycles_Cons_ne)
    have nd: "b_state (new_block\<lparr>b_byte := 0x55, b_nbit := 1\<rparr>) \<noteq> BS_DONE"
      by (simp add: new_block_def)
    show ?thesis
      using crossings_block [OF ne, of ?th dF] by (simp add: bc close_block_open [OF nd])
  qed
  have c2: "map (classify ?th) (tape_cycles ?F2)
      = frame_bits (SYNCBYTE # 0x01 # 1 # [0x07] @ [1 + 1 + sum_list [0x07], 0x55])"
    using classify_tape [of ?F2] by (simp add: SYNCBYTE_def)
  have cu0: "cur dF = new_block\<lparr>b_byte := 0\<rparr>"
    unfolding cu by (intro block.equality) (simp_all add: new_block_def)
  have p: "crossings ?th (tape_cycles ?F2) dF
      = Inr ((settle dF)\<lparr>d_count := 1, d_blocks := d_blocks dF @ [data_block [0x07]], d_cb := None\<rparr>)"
    by (rule data_frame_crossings [OF cu0 _ _ _ c2]) simp_all
  have "outcome (decode ?th ?mem (wave_of (tape_cycles (?F1 @ ?G))))
      = Inr ([data_block [0x1E, 0x00, 0x41]], [])"
    by (simp only: dec g) (simp add: bl ou)
  moreover have "outcome (decode ?th ?mem (wave_of (tape_cycles (?F1 @ ?F2))))
      = Inr ([data_block [0x1E, 0x00, 0x41], data_block [0x07]], [])"
    by (simp only: dec p) (simp add: bl ou)
  ultimately show ?thesis by simp
qed

end
